theory Spec2Isabelle
  imports Main
begin

section \<open>Data model of \<open>lru.go\<close>\<close>

text \<open>
  The cache of \<open>lru.go\<close> is a Go struct holding a capacity, a \<open>container/list\<close> list of
  elements, a map from keys to list elements and an optional eviction callback. The
  list elements are heap objects that the index and the list share, so the model keeps
  an explicit store: an element is an address, and the store maps each allocated address
  to the \<open>entry\<close> its \<open>Value\<close> field points to.

  The lock \<open>mu\<close> is not a field of the model. An operation that holds the lock from its
  first line to its last is one atomic step. \<open>Get\<close> releases the read lock, takes the write
  lock and then the read lock again, so it has three lock regions; they are defined after
  the runs of operations, together with a \<open>Get\<close> between whose regions other callers run.
\<close>

text \<open>\<open>type entry[K comparable, V any] struct { key K; val V }\<close>\<close>

record ('k, 'v) entry =
  key :: 'k
  val :: 'v

text \<open>A \<open>*list.Element\<close>: the address of a list element.\<close>

type_synonym elem = nat

text \<open>
  The struct \<open>LRU[K, V]\<close>. Field \<open>lst\<close> is the struct's field \<open>list\<close>: the elements
  linked into the list, front first. Fields \<open>elems\<close> and \<open>nxt\<close> are the heap the
  struct's pointers live in: the \<open>Value\<close> of every element allocated so far, and the
  next unused address. The callback is a Go function value whose body lies outside the
  cache; it is modelled by an identity of type \<open>'cb\<close>, and \<open>None\<close> is Go's \<open>nil\<close>.
\<close>

record ('k, 'v, 'cb) LRU =
  cap :: int
  lst :: "elem list"
  idx :: "'k \<rightharpoonup> elem"
  onEvict :: "'cb option"
  elems :: "elem \<rightharpoonup> ('k, 'v) entry"
  nxt :: elem

text \<open>One invocation \<open>c.onEvict(key, val)\<close> of a callback: which callback, and its arguments.\<close>

type_synonym ('k, 'v, 'cb) call = "'cb \<times> 'k \<times> 'v"

text \<open>The only error of the package: \<open>errors.New("capacity must be greater than 0")\<close>.\<close>

datatype error = InvalidCapacity

section \<open>The operations of \<open>container/list\<close> that the cache uses\<close>

text \<open>
  \<open>l.PushFront(v)\<close> allocates a new element with value \<open>v\<close>, links it at the front and
  returns it.
\<close>

definition PushFront ::
  "('k, 'v) entry \<Rightarrow> ('k, 'v, 'cb) LRU \<Rightarrow> elem \<times> ('k, 'v, 'cb) LRU" where
  "PushFront e c =
     (nxt c, c\<lparr>lst := nxt c # lst c, elems := (elems c)(nxt c \<mapsto> e), nxt := Suc (nxt c)\<rparr>)"

text \<open>
  \<open>l.MoveToFront(e)\<close>: \<open>if e.list != l || l.root.next == e { return }\<close>, otherwise the
  element is unlinked and linked again at the front. An element that was removed from
  the list has \<open>e.list == nil\<close>, so the list is left as it is.
\<close>

definition MoveToFront :: "elem \<Rightarrow> ('k, 'v, 'cb) LRU \<Rightarrow> ('k, 'v, 'cb) LRU" where
  "MoveToFront el c =
     (if el \<notin> set (lst c) \<or> take 1 (lst c) = [el] then c
      else c\<lparr>lst := el # remove1 el (lst c)\<rparr>)"

text \<open>\<open>l.Remove(e)\<close>: \<open>if e.list == l { l.remove(e) }\<close>; the element keeps its \<open>Value\<close>.\<close>

definition Remove :: "elem \<Rightarrow> ('k, 'v, 'cb) LRU \<Rightarrow> ('k, 'v, 'cb) LRU" where
  "Remove el c = (if el \<in> set (lst c) then c\<lparr>lst := remove1 el (lst c)\<rparr> else c)"

text \<open>\<open>l.Back()\<close>: the last element, or \<open>nil\<close> when the list is empty.\<close>

definition Back :: "('k, 'v, 'cb) LRU \<Rightarrow> elem option" where
  "Back c = (if lst c = [] then None else Some (last (lst c)))"

text \<open>\<open>l.Len()\<close>, a Go \<open>int\<close>.\<close>

definition ListLen :: "('k, 'v, 'cb) LRU \<Rightarrow> int" where
  "ListLen c = int (length (lst c))"

section \<open>The operations of the cache\<close>

text \<open>
  \<open>NewLRU(capacity)\<close>. The Go \<open>int\<close> capacity is an \<open>int\<close> here: the function only
  compares it with zero and stores it.
\<close>

definition NewLRU :: "int \<Rightarrow> error + ('k, 'v, 'cb) LRU" where
  "NewLRU capacity =
     (if capacity \<le> 0 then Inl InvalidCapacity
      else Inr \<lparr>cap = capacity, lst = [], idx = Map.empty, onEvict = None,
                elems = Map.empty, nxt = 0\<rparr>)"

text \<open>
  \<open>Get(key)\<close> returns the pair \<open>(V, bool)\<close> and the cache after the call. \<open>var zero V\<close> is
  the zero value of the value type: the value type is of class \<open>zero\<close>, and its \<open>0\<close> stands
  for the zero value Go gives the type. The result \<open>None\<close> is the failed read of an element
  that has no entry in the store; Go has no such element, and the theorems below prove
  that no cache built by \<open>NewLRU\<close> reaches this branch.
\<close>

definition Get ::
  "'k \<Rightarrow> ('k, 'v::zero, 'cb) LRU \<Rightarrow> (('v \<times> bool) \<times> ('k, 'v, 'cb) LRU) option" where
  "Get k c =
     (case idx c k of
        Some el \<Rightarrow>
          (let c' = MoveToFront el c in
           case elems c' el of
             None \<Rightarrow> None
           | Some e \<Rightarrow> Some ((val e, True), c'))
      | None \<Rightarrow> Some ((0, False), c))"

text \<open>
  \<open>Put(key, val)\<close> returns the callback invocations it made, in order, and the cache
  after the call; \<open>None\<close> as in \<open>Get\<close>. \<open>kv\<close> is read from the element after its
  removal, as the source does: a removed element keeps its \<open>Value\<close>.
\<close>

definition Put ::
  "'k \<Rightarrow> 'v \<Rightarrow> ('k, 'v, 'cb) LRU \<Rightarrow> (('k, 'v, 'cb) call list \<times> ('k, 'v, 'cb) LRU) option" where
  "Put k v c =
     (case idx c k of
        Some el \<Rightarrow>
          (case elems c el of
             None \<Rightarrow> None
           | Some e \<Rightarrow>
               Some ([], MoveToFront el (c\<lparr>elems := (elems c)(el \<mapsto> e\<lparr>val := v\<rparr>)\<rparr>)))
      | None \<Rightarrow>
          (let (el, c1) = PushFront \<lparr>key = k, val = v\<rparr> c;
               c2 = c1\<lparr>idx := (idx c1)(k \<mapsto> el)\<rparr>
           in if ListLen c2 > cap c2 then
                (case Back c2 of
                   None \<Rightarrow> Some ([], c2)
                 | Some tail \<Rightarrow>
                     (let c3 = Remove tail c2 in
                      case elems c3 tail of
                        None \<Rightarrow> None
                      | Some kv \<Rightarrow>
                          (let c4 = c3\<lparr>idx := (idx c3)(key kv := None)\<rparr> in
                           case onEvict c4 of
                             None \<Rightarrow> Some ([], c4)
                           | Some f \<Rightarrow> Some ([(f, key kv, val kv)], c4))))
              else Some ([], c2)))"

text \<open>\<open>Len()\<close>.\<close>

definition Len :: "('k, 'v, 'cb) LRU \<Rightarrow> int" where
  "Len c = ListLen c"

text \<open>\<open>SetEvictionCallback(fn)\<close>; \<open>fn\<close> may be \<open>nil\<close>.\<close>

definition SetEvictionCallback :: "'cb option \<Rightarrow> ('k, 'v, 'cb) LRU \<Rightarrow> ('k, 'v, 'cb) LRU" where
  "SetEvictionCallback fn c = c\<lparr>onEvict := fn\<rparr>"

section \<open>Runs of operations\<close>

datatype ('k, 'v, 'cb) op =
    OpGet 'k
  | OpPut 'k 'v
  | OpLen
  | OpSetEvictionCallback "'cb option"

text \<open>The cache after one operation; \<open>None\<close> when the operation panics.\<close>

fun step :: "('k, 'v, 'cb) op \<Rightarrow> ('k, 'v::zero, 'cb) LRU \<Rightarrow> ('k, 'v, 'cb) LRU option" where
  "step (OpGet k) c = map_option snd (Get k c)"
| "step (OpPut k v) c = map_option snd (Put k v c)"
| "step OpLen c = Some c"
| "step (OpSetEvictionCallback fn) c = Some (SetEvictionCallback fn c)"

fun run :: "('k, 'v, 'cb) op list \<Rightarrow> ('k, 'v::zero, 'cb) LRU \<Rightarrow> ('k, 'v, 'cb) LRU option" where
  "run [] c = Some c"
| "run (x # xs) c = (case step x c of None \<Rightarrow> None | Some c' \<Rightarrow> run xs c')"

section \<open>The lock regions of \<open>Get\<close>\<close>

text \<open>
  \<open>Get\<close> holds the read lock for the lookup (lines 41 to 46), the write lock for
  \<open>MoveToFront\<close> (lines 47 to 49) and the read lock again for the read of the value
  (lines 50 and 51). Between two regions it holds no lock, and a caller waiting for the
  lock may run. \<open>Put\<close>, \<open>Len\<close> and \<open>SetEvictionCallback\<close> hold the lock throughout.
\<close>

text \<open>First region: \<open>el, ok := c.idx[key]\<close>.\<close>

definition Get_lookup :: "'k \<Rightarrow> ('k, 'v, 'cb) LRU \<Rightarrow> elem option" where
  "Get_lookup k c = idx c k"

text \<open>Second region: \<open>c.list.MoveToFront(el)\<close>.\<close>

definition Get_promote :: "elem \<Rightarrow> ('k, 'v, 'cb) LRU \<Rightarrow> ('k, 'v, 'cb) LRU" where
  "Get_promote el c = MoveToFront el c"

text \<open>Third region: \<open>return el.Value.(*entry[K, V]).val, true\<close>.\<close>

definition Get_read :: "elem \<Rightarrow> ('k, 'v, 'cb) LRU \<Rightarrow> ('v \<times> bool) option" where
  "Get_read el c = (case elems c el of None \<Rightarrow> None | Some e \<Rightarrow> Some (val e, True))"

text \<open>
  \<open>Get\<close> of one caller while the operations \<open>others1\<close> of other callers run between its
  first and second region and the operations \<open>others2\<close> between its second and third. On a
  miss \<open>Get\<close> returns within its first region. With no other caller this is \<open>Get\<close>
  (lemma \<open>Get_racing_alone\<close>).
\<close>

definition Get_racing ::
  "'k \<Rightarrow> ('k, 'v, 'cb) op list \<Rightarrow> ('k, 'v, 'cb) op list \<Rightarrow> ('k, 'v::zero, 'cb) LRU \<Rightarrow>
     (('v \<times> bool) \<times> ('k, 'v, 'cb) LRU) option" where
  "Get_racing k others1 others2 c =
     (case Get_lookup k c of
        None \<Rightarrow> Some ((0, False), c)
      | Some el \<Rightarrow>
          (case run others1 c of
             None \<Rightarrow> None
           | Some c1 \<Rightarrow>
               (case run others2 (Get_promote el c1) of
                  None \<Rightarrow> None
                | Some c2 \<Rightarrow>
                    (case Get_read el c2 of
                       None \<Rightarrow> None
                     | Some r \<Rightarrow> Some (r, c2)))))"

section \<open>Abstraction and invariants\<close>

text \<open>The entries of the elements \<open>hs\<close>, in order, read from the store \<open>s\<close>.\<close>

fun entries :: "(elem \<rightharpoonup> ('k, 'v) entry) \<Rightarrow> elem list \<Rightarrow> ('k, 'v) entry list" where
  "entries s [] = []"
| "entries s (h # hs) = (case s h of None \<Rightarrow> entries s hs | Some e \<Rightarrow> e # entries s hs)"

text \<open>The resident entries of a cache, most recently used first.\<close>

definition resident :: "('k, 'v, 'cb) LRU \<Rightarrow> ('k, 'v) entry list" where
  "resident c = entries (elems c) (lst c)"

text \<open>
  The index and the list mirror each other: the list holds no element twice, every
  element of the list is allocated and the index maps its key to it, and every index
  entry points to an element of the list that holds the entry's key.
\<close>

definition consistent :: "('k, 'v, 'cb) LRU \<Rightarrow> bool" where
  "consistent c \<longleftrightarrow>
     distinct (lst c) \<and>
     (\<forall>h \<in> set (lst c). h < nxt c \<and> (\<exists>e. elems c h = Some e \<and> idx c (key e) = Some h)) \<and>
     (\<forall>k h. idx c k = Some h \<longrightarrow> h \<in> set (lst c) \<and> (\<exists>e. elems c h = Some e \<and> key e = k))"

text \<open>The invariant of a constructed cache: consistent, and within its positive capacity.\<close>

definition valid :: "('k, 'v, 'cb) LRU \<Rightarrow> bool" where
  "valid c \<longleftrightarrow> consistent c \<and> 0 < cap c \<and> Len c \<le> cap c"

section \<open>The outcomes of the operations, in closed form\<close>

text \<open>
  The definitions of this section are not part of the model: each names the cache that an
  operation is proved to return in one of its cases, so that the proofs can speak of it.

  The cache after Put on a key whose element is \<open>el\<close>.
\<close>

definition put_hit :: "elem \<Rightarrow> 'k \<Rightarrow> 'v \<Rightarrow> ('k, 'v, 'cb) LRU \<Rightarrow> ('k, 'v, 'cb) LRU" where
  "put_hit el k v c =
     c\<lparr>lst := el # remove1 el (lst c), elems := (elems c)(el \<mapsto> \<lparr>key = k, val = v\<rparr>)\<rparr>"

text \<open>The cache after Get on a key whose element is \<open>el\<close>.\<close>

definition promote :: "elem \<Rightarrow> ('k, 'v, 'cb) LRU \<Rightarrow> ('k, 'v, 'cb) LRU" where
  "promote el c = c\<lparr>lst := el # remove1 el (lst c)\<rparr>"

text \<open>The cache after the first half of Put on an absent key: the new element is linked
  and indexed.\<close>

definition insert_front :: "'k \<Rightarrow> 'v \<Rightarrow> ('k, 'v, 'cb) LRU \<Rightarrow> ('k, 'v, 'cb) LRU" where
  "insert_front k v c =
     c\<lparr>lst := nxt c # lst c, elems := (elems c)(nxt c \<mapsto> \<lparr>key = k, val = v\<rparr>),
       nxt := Suc (nxt c), idx := (idx c)(k \<mapsto> nxt c)\<rparr>"

text \<open>The cache after the second half: the last element is unlinked and its key leaves
  the index.\<close>

definition evict_back :: "('k, 'v, 'cb) LRU \<Rightarrow> ('k, 'v, 'cb) LRU" where
  "evict_back c = c\<lparr>lst := butlast (lst c), idx := (idx c)(key (last (resident c)) := None)\<rparr>"

text \<open>The entry that Put of \<open>k\<close> and \<open>v\<close> evicts from a full cache.\<close>

definition victim :: "'k \<Rightarrow> 'v \<Rightarrow> ('k, 'v, 'cb) LRU \<Rightarrow> ('k, 'v) entry" where
  "victim k v c = last (\<lparr>key = k, val = v\<rparr> # resident c)"

text \<open>The invocations made for an evicted entry: one when a callback is set, else none.\<close>

definition notify :: "'cb option \<Rightarrow> ('k, 'v) entry \<Rightarrow> ('k, 'v, 'cb) call list" where
  "notify cb e = (case cb of None \<Rightarrow> [] | Some f \<Rightarrow> [(f, key e, val e)])"

text \<open>A run of Puts, one for each pair, and the entries these Puts store.\<close>

definition puts :: "('k \<times> 'v) list \<Rightarrow> ('k, 'v, 'cb) op list" where
  "puts kvs = map (\<lambda>(a, b). OpPut a b) kvs"

definition pairs :: "('k \<times> 'v) list \<Rightarrow> ('k, 'v) entry list" where
  "pairs kvs = map (\<lambda>(a, b). \<lparr>key = a, val = b\<rparr>) kvs"

section \<open>Facts about lists\<close>

lemma filter_neq_id: "\<forall>x \<in> set xs. f e \<noteq> f x \<Longrightarrow> filter (\<lambda>x. f x \<noteq> f e) xs = xs"
  by (induction xs) auto

lemma remove1_filter_key:
  "distinct (map f xs) \<Longrightarrow> e \<in> set xs \<Longrightarrow> remove1 e xs = filter (\<lambda>x. f x \<noteq> f e) xs"
  by (induction xs) (auto simp: image_iff filter_neq_id)

lemma map_remove1_filter:
  "distinct xs \<Longrightarrow> \<forall>h \<in> set xs. p (f h) = (h \<noteq> el) \<Longrightarrow>
     map f (remove1 el xs) = filter p (map f xs)"
proof (induction xs)
  case Nil
  then show ?case by simp
next
  case (Cons x xs)
  show ?case
  proof (cases "x = el")
    case True
    with Cons.prems have "\<forall>h \<in> set xs. p (f h)" by auto
    then have "filter p (map f xs) = map f xs" by (simp add: filter_id_conv)
    with True Cons.prems show ?thesis by simp
  next
    case False
    with Cons show ?thesis by simp
  qed
qed

lemma remove1_last: "distinct xs \<Longrightarrow> xs \<noteq> [] \<Longrightarrow> remove1 (last xs) xs = butlast xs"
  by (induction xs) auto

lemma distinct_last_butlast: "distinct xs \<Longrightarrow> xs \<noteq> [] \<Longrightarrow> last xs \<notin> set (butlast xs)"
  by (induction xs) (auto dest: in_set_butlastD)

lemma set_butlast_last: "xs \<noteq> [] \<Longrightarrow> h \<in> set xs \<longleftrightarrow> h = last xs \<or> h \<in> set (butlast xs)"
  by (induction xs) auto

lemma length_Cons_remove1: "x \<in> set xs \<Longrightarrow> int (length (x # remove1 x xs)) = int (length xs)"
  using length_pos_if_in_set [of x xs] by (simp add: length_remove1)

lemma take_filter_id:
  "\<forall>x \<in> set (take n xs). P x \<Longrightarrow> take n (filter P xs) = take n xs"
proof (induction xs arbitrary: n)
  case Nil
  then show ?case by simp
next
  case (Cons x xs)
  then show ?case by (cases n) auto
qed

section \<open>Consistent caches\<close>

subsection \<open>The entries of a list of elements\<close>

lemma entries_map:
  "\<forall>h \<in> set hs. s h \<noteq> None \<Longrightarrow> entries s hs = map (\<lambda>h. the (s h)) hs"
  by (induction hs) auto

lemma entries_upd_notin:
  "h \<notin> set hs \<Longrightarrow> entries (s(h \<mapsto> e)) hs = entries s hs"
  by (induction hs) (auto split: option.splits)

lemma consistent_alloc: "consistent c \<Longrightarrow> h \<in> set (lst c) \<Longrightarrow> elems c h \<noteq> None"
  by (auto simp: consistent_def)

lemma resident_map:
  "consistent c \<Longrightarrow> resident c = map (\<lambda>h. the (elems c h)) (lst c)"
  unfolding resident_def by (rule entries_map) (auto simp: consistent_def)

lemma length_resident: "consistent c \<Longrightarrow> length (resident c) = length (lst c)"
  by (simp add: resident_map)

lemma key_inj:
  assumes "consistent c" "h \<in> set (lst c)" "h' \<in> set (lst c)"
    "key (the (elems c h)) = key (the (elems c h'))"
  shows "h = h'"
  using assms unfolding consistent_def by (metis option.sel)

lemma distinct_keys: "consistent c \<Longrightarrow> distinct (map key (resident c))"
proof -
  assume c: "consistent c"
  have "inj_on (\<lambda>h. key (the (elems c h))) (set (lst c))"
    by (rule inj_onI) (rule key_inj [OF c])
  moreover have "distinct (lst c)" using c by (simp add: consistent_def)
  ultimately show ?thesis
    by (simp add: resident_map [OF c] distinct_map comp_def)
qed

lemma idx_iff_resident:
  "consistent c \<Longrightarrow> (idx c k \<noteq> None) = (k \<in> key ` set (resident c))"
  apply (simp add: resident_map)
  apply (auto simp: consistent_def image_iff)
  by force

subsection \<open>Put on a present key\<close>

lemma MoveToFront_in:
  "el \<in> set (lst c) \<Longrightarrow> MoveToFront el c = c\<lparr>lst := el # remove1 el (lst c)\<rparr>"
  by (cases "lst c") (auto simp: MoveToFront_def)

lemma entry_upd_val: "key e = k \<Longrightarrow> e\<lparr>val := v\<rparr> = \<lparr>key = k, val = v\<rparr>"
  by (cases e) simp

lemma Put_hit:
  assumes "consistent c" "idx c k = Some el"
  shows "Put k v c = Some ([], put_hit el k v c)"
proof -
  from assms obtain e where e: "elems c el = Some e" "key e = k" and el: "el \<in> set (lst c)"
    unfolding consistent_def by blast
  show ?thesis
    using assms(2) e el
    by (simp add: Put_def MoveToFront_in put_hit_def entry_upd_val)
qed

lemma consistentI:
  assumes "distinct (lst c)"
    and "\<And>h. h \<in> set (lst c) \<Longrightarrow> h < nxt c"
    and "\<And>h. h \<in> set (lst c) \<Longrightarrow> \<exists>e. elems c h = Some e \<and> idx c (key e) = Some h"
    and "\<And>k h. idx c k = Some h \<Longrightarrow> h \<in> set (lst c)"
    and "\<And>k h. idx c k = Some h \<Longrightarrow> \<exists>e. elems c h = Some e \<and> key e = k"
  shows "consistent c"
  unfolding consistent_def using assms by blast

lemma consistent_distinct: "consistent c \<Longrightarrow> distinct (lst c)"
  by (simp add: consistent_def)

lemma consistent_fresh: "consistent c \<Longrightarrow> h \<in> set (lst c) \<Longrightarrow> h < nxt c"
  by (simp add: consistent_def)

lemma consistent_lst:
  "consistent c \<Longrightarrow> h \<in> set (lst c) \<Longrightarrow> \<exists>e. elems c h = Some e \<and> idx c (key e) = Some h"
  by (simp add: consistent_def)

lemma consistent_idx_in: "consistent c \<Longrightarrow> idx c k = Some h \<Longrightarrow> h \<in> set (lst c)"
  unfolding consistent_def by blast

lemma consistent_idx_key:
  "consistent c \<Longrightarrow> idx c k = Some h \<Longrightarrow> \<exists>e. elems c h = Some e \<and> key e = k"
  unfolding consistent_def by blast

lemma put_hit_simps [simp]:
  "lst (put_hit el k v c) = el # remove1 el (lst c)"
  "elems (put_hit el k v c) = (elems c)(el \<mapsto> \<lparr>key = k, val = v\<rparr>)"
  "idx (put_hit el k v c) = idx c"
  "nxt (put_hit el k v c) = nxt c"
  "cap (put_hit el k v c) = cap c"
  "onEvict (put_hit el k v c) = onEvict c"
  by (simp_all add: put_hit_def)

lemma consistent_put_hit:
  assumes c: "consistent c" and k: "idx c k = Some el"
  shows "consistent (put_hit el k v c)"
proof (rule consistentI)
  have el: "el \<in> set (lst c)" by (rule consistent_idx_in [OF c k])
  have d: "distinct (lst c)" by (rule consistent_distinct [OF c])
  have s: "(h = el \<or> h \<in> set (remove1 el (lst c))) = (h \<in> set (lst c))" for h
    using el d by auto
  show "distinct (lst (put_hit el k v c))" using d by simp
  show "h < nxt (put_hit el k v c)" if "h \<in> set (lst (put_hit el k v c))" for h
    using that s consistent_fresh [OF c, of h] by simp
  show "\<exists>e. elems (put_hit el k v c) h = Some e \<and> idx (put_hit el k v c) (key e) = Some h"
    if "h \<in> set (lst (put_hit el k v c))" for h
  proof (cases "h = el")
    case True
    then show ?thesis using k by simp
  next
    case False
    with that s have "h \<in> set (lst c)" by simp
    from consistent_lst [OF c this] False show ?thesis by simp
  qed
  show "h \<in> set (lst (put_hit el k v c))" if "idx (put_hit el k v c) k' = Some h" for k' h
    using that s consistent_idx_in [OF c, of k' h] by simp
  show "\<exists>e. elems (put_hit el k v c) h = Some e \<and> key e = k'"
    if "idx (put_hit el k v c) k' = Some h" for k' h
  proof (cases "h = el")
    case True
    from consistent_idx_key [OF c k] obtain e where e: "elems c el = Some e" "key e = k" by blast
    from that True have "idx c k' = Some el" by simp
    from consistent_idx_key [OF c this] e have "k' = k" by auto
    with True show ?thesis by simp
  next
    case False
    from that have "idx c k' = Some h" by simp
    from consistent_idx_key [OF c this] False show ?thesis by simp
  qed
qed

lemma resident_put_hit:
  assumes "consistent c" "idx c k = Some el"
  shows "resident (put_hit el k v c) =
           \<lparr>key = k, val = v\<rparr> # filter (\<lambda>e. key e \<noteq> k) (resident c)"
proof -
  from assms obtain e where e: "elems c el = Some e" "key e = k" and el: "el \<in> set (lst c)"
    unfolding consistent_def by blast
  have d: "distinct (lst c)" using assms(1) by (simp add: consistent_def)
  have "resident (put_hit el k v c) =
          \<lparr>key = k, val = v\<rparr> # entries (elems c) (remove1 el (lst c))"
    using d by (simp add: resident_def put_hit_def entries_upd_notin)
  also have "entries (elems c) (remove1 el (lst c)) = map (\<lambda>h. the (elems c h)) (remove1 el (lst c))"
    by (rule entries_map) (use assms(1) in \<open>auto simp: consistent_def dest: notin_set_remove1\<close>)
  also have "\<dots> = filter (\<lambda>x. key x \<noteq> k) (map (\<lambda>h. the (elems c h)) (lst c))"
  proof (rule map_remove1_filter [OF d], rule ballI)
    fix h assume h: "h \<in> set (lst c)"
    show "(key (the (elems c h)) \<noteq> k) = (h \<noteq> el)"
      using key_inj [OF assms(1) h el] e by auto
  qed
  finally show ?thesis by (simp add: resident_map [OF assms(1)])
qed

subsection \<open>Get on a present key\<close>

lemma promote_simps [simp]:
  "lst (promote el c) = el # remove1 el (lst c)"
  "elems (promote el c) = elems c"
  "idx (promote el c) = idx c"
  "nxt (promote el c) = nxt c"
  "cap (promote el c) = cap c"
  "onEvict (promote el c) = onEvict c"
  by (simp_all add: promote_def)

lemma Get_hit:
  assumes c: "consistent c" and k: "idx c k = Some el"
  shows "\<exists>e. elems c el = Some e \<and> key e = k \<and> Get k c = Some ((val e, True), promote el c)"
proof -
  from consistent_idx_key [OF c k] obtain e where e: "elems c el = Some e" "key e = k" by blast
  have el: "el \<in> set (lst c)" by (rule consistent_idx_in [OF c k])
  have "Get k c = Some ((val e, True), promote el c)"
    using k e el by (simp add: Get_def MoveToFront_in promote_def)
  with e show ?thesis by blast
qed

lemma consistent_promote:
  assumes c: "consistent c" and el: "el \<in> set (lst c)"
  shows "consistent (promote el c)"
proof (rule consistentI)
  have d: "distinct (lst c)" by (rule consistent_distinct [OF c])
  have s: "(h = el \<or> h \<in> set (remove1 el (lst c))) = (h \<in> set (lst c))" for h
    using el d by auto
  show "distinct (lst (promote el c))" using d by simp
  show "h < nxt (promote el c)" if "h \<in> set (lst (promote el c))" for h
    using that s consistent_fresh [OF c, of h] by simp
  show "\<exists>e. elems (promote el c) h = Some e \<and> idx (promote el c) (key e) = Some h"
    if "h \<in> set (lst (promote el c))" for h
    using that s consistent_lst [OF c, of h] by simp
  show "h \<in> set (lst (promote el c))" if "idx (promote el c) k' = Some h" for k' h
    using that s consistent_idx_in [OF c, of k' h] by simp
  show "\<exists>e. elems (promote el c) h = Some e \<and> key e = k'"
    if "idx (promote el c) k' = Some h" for k' h
    using that consistent_idx_key [OF c, of k' h] by simp
qed

lemma resident_promote:
  assumes c: "consistent c" and k: "idx c k = Some el" and e: "elems c el = Some e"
  shows "resident (promote el c) = e # filter (\<lambda>x. key x \<noteq> k) (resident c)"
proof -
  have el: "el \<in> set (lst c)" by (rule consistent_idx_in [OF c k])
  have d: "distinct (lst c)" by (rule consistent_distinct [OF c])
  from consistent_idx_key [OF c k] e have ke: "key e = k" by simp
  have "resident (promote el c) = map (\<lambda>h. the (elems c h)) (el # remove1 el (lst c))"
    using resident_map [OF consistent_promote [OF c el]] by simp
  also have "\<dots> = e # map (\<lambda>h. the (elems c h)) (remove1 el (lst c))"
    using e by simp
  also have "map (\<lambda>h. the (elems c h)) (remove1 el (lst c)) =
      filter (\<lambda>x. key x \<noteq> k) (map (\<lambda>h. the (elems c h)) (lst c))"
  proof (rule map_remove1_filter [OF d], rule ballI)
    fix h assume h: "h \<in> set (lst c)"
    show "(key (the (elems c h)) \<noteq> k) = (h \<noteq> el)"
      using key_inj [OF c h el] e ke by auto
  qed
  finally show ?thesis by (simp add: resident_map [OF c])
qed

subsection \<open>Put on an absent key\<close>

lemma insert_front_simps [simp]:
  "lst (insert_front k v c) = nxt c # lst c"
  "elems (insert_front k v c) = (elems c)(nxt c \<mapsto> \<lparr>key = k, val = v\<rparr>)"
  "idx (insert_front k v c) = (idx c)(k \<mapsto> nxt c)"
  "nxt (insert_front k v c) = Suc (nxt c)"
  "cap (insert_front k v c) = cap c"
  "onEvict (insert_front k v c) = onEvict c"
  by (simp_all add: insert_front_def)

lemma nxt_notin: "consistent c \<Longrightarrow> nxt c \<notin> set (lst c)"
  using consistent_fresh [of c "nxt c"] by auto

lemma consistent_insert_front:
  assumes c: "consistent c" and k: "idx c k = None"
  shows "consistent (insert_front k v c)"
proof (rule consistentI)
  note n = nxt_notin [OF c]
  show "distinct (lst (insert_front k v c))"
    using consistent_distinct [OF c] n by simp
  show "h < nxt (insert_front k v c)" if "h \<in> set (lst (insert_front k v c))" for h
    using that consistent_fresh [OF c, of h] by auto
  show "\<exists>e. elems (insert_front k v c) h = Some e \<and> idx (insert_front k v c) (key e) = Some h"
    if "h \<in> set (lst (insert_front k v c))" for h
  proof (cases "h = nxt c")
    case True
    then show ?thesis by simp
  next
    case False
    with that have h: "h \<in> set (lst c)" by simp
    from consistent_lst [OF c h] obtain e where e: "elems c h = Some e" "idx c (key e) = Some h"
      by blast
    with k have "key e \<noteq> k" by auto
    with e False show ?thesis by simp
  qed
  show "h \<in> set (lst (insert_front k v c))" if "idx (insert_front k v c) k' = Some h" for k' h
    using that consistent_idx_in [OF c, of k' h] by (cases "k' = k") auto
  show "\<exists>e. elems (insert_front k v c) h = Some e \<and> key e = k'"
    if "idx (insert_front k v c) k' = Some h" for k' h
  proof (cases "k' = k")
    case True
    with that show ?thesis by auto
  next
    case False
    with that have i: "idx c k' = Some h" by simp
    from consistent_idx_in [OF c i] n have "h \<noteq> nxt c" by auto
    with consistent_idx_key [OF c i] show ?thesis by simp
  qed
qed

lemma resident_insert_front:
  assumes c: "consistent c"
  shows "resident (insert_front k v c) = \<lparr>key = k, val = v\<rparr> # resident c"
  using nxt_notin [OF c] by (simp add: resident_def entries_upd_notin)

lemma evict_back_simps [simp]:
  "lst (evict_back c) = butlast (lst c)"
  "elems (evict_back c) = elems c"
  "idx (evict_back c) = (idx c)(key (last (resident c)) := None)"
  "nxt (evict_back c) = nxt c"
  "cap (evict_back c) = cap c"
  "onEvict (evict_back c) = onEvict c"
  by (simp_all add: evict_back_def)

lemma last_resident:
  assumes c: "consistent c" and ne: "lst c \<noteq> []"
  shows "elems c (last (lst c)) = Some (last (resident c))"
proof -
  have "last (lst c) \<in> set (lst c)" using ne by simp
  from consistent_lst [OF c this] obtain e where "elems c (last (lst c)) = Some e" by blast
  then show ?thesis using ne by (simp add: resident_map [OF c] last_map)
qed

lemma consistent_evict_back:
  assumes c: "consistent c" and ne: "lst c \<noteq> []"
  shows "consistent (evict_back c)"
proof (rule consistentI)
  let ?t = "last (lst c)"
  have d: "distinct (lst c)" by (rule consistent_distinct [OF c])
  have t: "?t \<in> set (lst c)" using ne by simp
  have tb: "?t \<notin> set (butlast (lst c))"
    using d ne by (rule distinct_last_butlast)
  have sb: "h \<in> set (lst c) \<longleftrightarrow> h = ?t \<or> h \<in> set (butlast (lst c))" for h
    using ne by (rule set_butlast_last)
  note lr = last_resident [OF c ne]
  show "distinct (lst (evict_back c))" using d by (simp add: distinct_butlast)
  show "h < nxt (evict_back c)" if "h \<in> set (lst (evict_back c))" for h
    using that consistent_fresh [OF c, of h] by (auto dest: in_set_butlastD)
  show "\<exists>e. elems (evict_back c) h = Some e \<and> idx (evict_back c) (key e) = Some h"
    if "h \<in> set (lst (evict_back c))" for h
  proof -
    from that have hb: "h \<in> set (butlast (lst c))" by simp
    then have h: "h \<in> set (lst c)" by (rule in_set_butlastD)
    from hb tb have ht: "h \<noteq> ?t" by auto
    from consistent_lst [OF c h] obtain e where e: "elems c h = Some e" "idx c (key e) = Some h"
      by blast
    have "key e \<noteq> key (last (resident c))"
    proof
      assume "key e = key (last (resident c))"
      with key_inj [OF c h t] e lr ht show False by simp
    qed
    with e show ?thesis by simp
  qed
  show "h \<in> set (lst (evict_back c))" if "idx (evict_back c) k' = Some h" for k' h
  proof -
    from that have kk: "k' \<noteq> key (last (resident c))" and i: "idx c k' = Some h"
      by (auto split: if_splits)
    from consistent_idx_key [OF c i] obtain e where e: "elems c h = Some e" "key e = k'" by blast
    with kk lr have "h \<noteq> ?t" by auto
    with consistent_idx_in [OF c i] sb show ?thesis by simp
  qed
  show "\<exists>e. elems (evict_back c) h = Some e \<and> key e = k'"
    if "idx (evict_back c) k' = Some h" for k' h
  proof -
    from that have i: "idx c k' = Some h" by (auto split: if_splits)
    from consistent_idx_key [OF c i] show ?thesis by simp
  qed
qed

lemma resident_evict_back:
  assumes c: "consistent c" and ne: "lst c \<noteq> []"
  shows "resident (evict_back c) = butlast (resident c)"
  using resident_map [OF consistent_evict_back [OF c ne]]
  by (simp add: resident_map [OF c] map_butlast)

lemma Put_unfold_miss:
  assumes k: "idx c k = None"
  shows "Put k v c =
     (let c2 = insert_front k v c
      in if ListLen c2 > cap c2 then
           (case Back c2 of
              None \<Rightarrow> Some ([], c2)
            | Some tail \<Rightarrow>
                (let c3 = Remove tail c2 in
                 case elems c3 tail of
                   None \<Rightarrow> None
                 | Some kv \<Rightarrow>
                     (let c4 = c3\<lparr>idx := (idx c3)(key kv := None)\<rparr> in
                      case onEvict c4 of
                        None \<Rightarrow> Some ([], c4)
                      | Some f \<Rightarrow> Some ([(f, key kv, val kv)], c4))))
         else Some ([], c2))"
proof -
  have 1: "(let (el, c1) = PushFront \<lparr>key = k, val = v\<rparr> c;
                c2 = c1\<lparr>idx := (idx c1)(k \<mapsto> el)\<rparr> in F c2) =
           (let c2 = insert_front k v c in F c2)" for F :: "('a, 'b, 'c) LRU \<Rightarrow> 'd"
    by (simp add: PushFront_def insert_front_def Let_def)
  show ?thesis
    by (simp only: Put_def k option.case 1)
qed

lemma Put_miss:
  assumes c: "consistent c" and k: "idx c k = None"
  shows "Put k v c =
     Some (if Len c + 1 > cap c
           then (notify (onEvict c) (victim k v c), evict_back (insert_front k v c))
           else ([], insert_front k v c))"
proof -
  define c2 where "c2 = insert_front k v c"
  have c2: "consistent c2" unfolding c2_def by (rule consistent_insert_front [OF c k])
  have ne: "lst c2 \<noteq> []" by (simp add: c2_def)
  have len: "ListLen c2 = Len c + 1" by (simp add: c2_def ListLen_def Len_def)
  have cp: "cap c2 = cap c" and oe: "onEvict c2 = onEvict c" by (simp_all add: c2_def)
  have bk: "Back c2 = Some (last (lst c2))" using ne by (simp add: Back_def)
  have rem: "Remove (last (lst c2)) c2 = c2\<lparr>lst := butlast (lst c2)\<rparr>"
    using ne remove1_last [OF consistent_distinct [OF c2] ne] by (simp add: Remove_def)
  have res: "resident c2 = \<lparr>key = k, val = v\<rparr> # resident c"
    unfolding c2_def by (rule resident_insert_front [OF c])
  have vic: "elems c2 (last (lst c2)) = Some (victim k v c)"
    using last_resident [OF c2 ne] by (simp add: res victim_def)
  have eb: "c2\<lparr>lst := butlast (lst c2), idx := (idx c2)(key (victim k v c) := None)\<rparr> = evict_back c2"
    by (simp add: evict_back_def res victim_def)
  have "Put k v c =
     (if Len c + 1 > cap c then Some (notify (onEvict c) (victim k v c), evict_back c2)
      else Some ([], c2))"
    unfolding Put_unfold_miss [OF k] c2_def [symmetric]
    by (simp add: Let_def len cp bk rem vic oe eb notify_def split: option.split)
  then show ?thesis by (simp add: c2_def)
qed

subsection \<open>Every operation keeps a valid cache valid\<close>

lemma Len_resident: "consistent c \<Longrightarrow> Len c = int (length (resident c))"
  by (simp add: Len_def ListLen_def length_resident)

lemma Put_result:
  assumes c: "consistent c"
  shows "\<exists>evs c'. Put k v c = Some (evs, c') \<and> consistent c' \<and> cap c' = cap c \<and>
           onEvict c' = onEvict c \<and>
           resident c' =
             (if idx c k \<noteq> None then \<lparr>key = k, val = v\<rparr> # filter (\<lambda>e. key e \<noteq> k) (resident c)
              else if Len c + 1 > cap c then butlast (\<lparr>key = k, val = v\<rparr> # resident c)
              else \<lparr>key = k, val = v\<rparr> # resident c) \<and>
           Len c' = (if idx c k = None \<and> Len c + 1 \<le> cap c then Len c + 1 else Len c)"
proof (cases "idx c k")
  case None
  let ?c2 = "insert_front k v c"
  have c2: "consistent ?c2" by (rule consistent_insert_front [OF c None])
  have ne: "lst ?c2 \<noteq> []" by simp
  note r2 = resident_insert_front [OF c, of k v]
  show ?thesis
  proof (cases "Len c + 1 > cap c")
    case True
    have "Put k v c = Some (notify (onEvict c) (victim k v c), evict_back ?c2)"
      using Put_miss [OF c None, of v] True by simp
    moreover have "consistent (evict_back ?c2)" by (rule consistent_evict_back [OF c2 ne])
    moreover have "resident (evict_back ?c2) = butlast (\<lparr>key = k, val = v\<rparr> # resident c)"
      using resident_evict_back [OF c2 ne] r2 by simp
    moreover have "Len (evict_back ?c2) = Len c" by (simp add: Len_def ListLen_def)
    ultimately show ?thesis using None True by simp
  next
    case False
    have "Put k v c = Some ([], ?c2)"
      using Put_miss [OF c None, of v] False by simp
    moreover have "Len ?c2 = Len c + 1" by (simp add: Len_def ListLen_def)
    ultimately show ?thesis using None False c2 r2 by simp
  qed
next
  case (Some el)
  have el: "el \<in> set (lst c)" by (rule consistent_idx_in [OF c Some])
  have "Len (put_hit el k v c) = Len c"
    using length_Cons_remove1 [OF el] by (simp only: Len_def ListLen_def put_hit_simps promote_simps)
  with Put_hit [OF c Some, of v] consistent_put_hit [OF c Some, of v]
    resident_put_hit [OF c Some, of v] Some
  show ?thesis by simp
qed

lemma Get_result:
  assumes c: "consistent c"
  shows "\<exists>r c'. Get k c = Some (r, c') \<and> consistent c' \<and> cap c' = cap c \<and>
           onEvict c' = onEvict c \<and> Len c' = Len c"
proof (cases "idx c k")
  case None
  then have "Get k c = Some ((0, False), c)" by (simp add: Get_def)
  with c show ?thesis by blast
next
  case (Some el)
  have el: "el \<in> set (lst c)" by (rule consistent_idx_in [OF c Some])
  have "Len (promote el c) = Len c"
    using length_Cons_remove1 [OF el] by (simp only: Len_def ListLen_def put_hit_simps promote_simps)
  with Get_hit [OF c Some] consistent_promote [OF c el] show ?thesis by auto
qed

lemma valid_step:
  assumes "valid c"
  shows "\<exists>c'. step x c = Some c' \<and> valid c' \<and> cap c' = cap c"
proof (cases x)
  case (OpGet k)
  from assms have c: "consistent c" by (simp add: valid_def)
  from Get_result [OF c, of k] obtain r c' where
    "Get k c = Some (r, c')" "consistent c'" "cap c' = cap c" "Len c' = Len c" by blast
  with assms OpGet show ?thesis by (simp add: valid_def)
next
  case (OpPut k v)
  from assms have c: "consistent c" by (simp add: valid_def)
  from Put_result [OF c, of k v] obtain evs c' where
    "Put k v c = Some (evs, c')" "consistent c'" "cap c' = cap c"
    "Len c' = (if idx c k = None \<and> Len c + 1 \<le> cap c then Len c + 1 else Len c)" by blast
  with assms OpPut show ?thesis by (auto simp: valid_def split: if_splits)
next
  case OpLen
  with assms show ?thesis by simp
next
  case (OpSetEvictionCallback fn)
  with assms show ?thesis
    by (simp add: SetEvictionCallback_def valid_def consistent_def Len_def ListLen_def)
qed

lemma valid_run:
  "valid c \<Longrightarrow> \<exists>c'. run xs c = Some c' \<and> valid c' \<and> cap c' = cap c"
proof (induction xs arbitrary: c)
  case Nil
  then show ?case by simp
next
  case (Cons x xs)
  from valid_step [OF Cons.prems, of x] obtain c1 where
    1: "step x c = Some c1" "valid c1" "cap c1 = cap c" by blast
  from Cons.IH [OF 1(2)] 1 show ?case by simp
qed

lemma valid_NewLRU: "NewLRU n = Inr c0 \<Longrightarrow> valid c0 \<and> cap c0 = n"
  by (auto simp: NewLRU_def valid_def consistent_def Len_def ListLen_def split: if_splits)

lemma run_append:
  "run (xs @ ys) c = (case run xs c of None \<Rightarrow> None | Some c' \<Rightarrow> run ys c')"
  by (induction xs arbitrary: c) (auto split: option.splits)

section \<open>Runs of Puts\<close>

lemma valid_Put:
  assumes v: "valid c"
  shows "\<exists>evs c'. Put k v c = Some (evs, c') \<and> valid c' \<and> cap c' = cap c \<and>
           onEvict c' = onEvict c \<and>
           evs = (if idx c k = None \<and> Len c + 1 > cap c
                  then notify (onEvict c) (victim k v c) else []) \<and>
           resident c' =
             (if idx c k \<noteq> None then \<lparr>key = k, val = v\<rparr> # filter (\<lambda>e. key e \<noteq> k) (resident c)
              else if Len c + 1 > cap c then butlast (\<lparr>key = k, val = v\<rparr> # resident c)
              else \<lparr>key = k, val = v\<rparr> # resident c)"
proof -
  from v have c: "consistent c" by (simp add: valid_def)
  from Put_result [OF c, of k v] obtain evs c' where
    r: "Put k v c = Some (evs, c')" "consistent c'" "cap c' = cap c" "onEvict c' = onEvict c"
    "resident c' =
             (if idx c k \<noteq> None then \<lparr>key = k, val = v\<rparr> # filter (\<lambda>e. key e \<noteq> k) (resident c)
              else if Len c + 1 > cap c then butlast (\<lparr>key = k, val = v\<rparr> # resident c)
              else \<lparr>key = k, val = v\<rparr> # resident c)"
    "Len c' = (if idx c k = None \<and> Len c + 1 \<le> cap c then Len c + 1 else Len c)"
    by blast
  have "valid c'" using v r(2,3,6) by (auto simp: valid_def split: if_splits)
  moreover have "evs = (if idx c k = None \<and> Len c + 1 > cap c
                  then notify (onEvict c) (victim k v c) else [])"
  proof (cases "idx c k")
    case None
    with Put_miss [OF c None, of v] r(1) show ?thesis by (auto split: if_splits)
  next
    case (Some el)
    with Put_hit [OF c Some, of v] r(1) show ?thesis by simp
  qed
  ultimately show ?thesis using r(1,3,4,5) by blast
qed

lemma notify_pair:
  "notify cb \<lparr>key = a, val = b\<rparr> = (case cb of None \<Rightarrow> [] | Some f \<Rightarrow> [(f, a, b)])"
  by (simp add: notify_def split: option.split)

lemma keys_pairs: "key ` set (pairs kvs) = fst ` set kvs"
  by (force simp: pairs_def image_iff)

lemma puts_prefix:
  fixes c :: "('k, 'v::zero, 'cb) LRU"
  assumes v: "valid c"
  shows "distinct (map fst kvs) \<Longrightarrow> int (length kvs) \<le> cap c \<Longrightarrow>
     \<exists>c'. run (puts kvs) c = Some c' \<and> valid c' \<and> cap c' = cap c \<and>
       onEvict c' = onEvict c \<and> take (length kvs) (resident c') = rev (pairs kvs)"
proof (induction kvs rule: rev_induct)
  case Nil
  with v show ?case by (simp add: puts_def pairs_def)
next
  case (snoc x kvs)
  obtain a b where x: "x = (a, b)" by (cases x)
  from snoc.prems have d: "distinct (map fst kvs)" and a: "a \<notin> fst ` set kvs"
    and n: "int (length kvs) + 1 \<le> cap c"
    by (simp_all add: x)
  from snoc.IH [OF d] n obtain c1 where
    c1: "run (puts kvs) c = Some c1" "valid c1" "cap c1 = cap c" "onEvict c1 = onEvict c"
    "take (length kvs) (resident c1) = rev (pairs kvs)" by auto
  from c1(2) have cc1: "consistent c1" by (simp add: valid_def)
  from valid_Put [OF c1(2), of a b] obtain evs c2 where
    c2: "Put a b c1 = Some (evs, c2)" "valid c2" "cap c2 = cap c1" "onEvict c2 = onEvict c1"
    "resident c2 =
       (if idx c1 a \<noteq> None then \<lparr>key = a, val = b\<rparr> # filter (\<lambda>e. key e \<noteq> a) (resident c1)
        else if Len c1 + 1 > cap c1 then butlast (\<lparr>key = a, val = b\<rparr> # resident c1)
        else \<lparr>key = a, val = b\<rparr> # resident c1)"
    by blast
  have run2: "run (puts (kvs @ [x])) c = Some c2"
    using c1(1) c2(1) by (simp add: puts_def run_append x)
  have keys: "\<forall>e \<in> set (take (length kvs) (resident c1)). key e \<noteq> a"
    using a unfolding c1(5) by (force simp: pairs_def)
  have "take (Suc (length kvs)) (resident c2) = \<lparr>key = a, val = b\<rparr> # rev (pairs kvs)"
  proof (cases "idx c1 a \<noteq> None")
    case True
    with c2(5) take_filter_id [OF keys] c1(5) show ?thesis by simp
  next
    case False
    show ?thesis
    proof (cases "Len c1 + 1 > cap c1")
      case True
      with n c1(3) have l: "length kvs < length (resident c1)"
        by (simp add: Len_resident [OF cc1])
      then have "resident c1 \<noteq> []" by auto
      with False True c2(5) have "resident c2 = \<lparr>key = a, val = b\<rparr> # butlast (resident c1)"
        by simp
      with l c1(5) show ?thesis by (simp add: take_butlast)
    next
      case F2: False
      with False c2(5) c1(5) show ?thesis by simp
    qed
  qed
  then have "take (length (kvs @ [x])) (resident c2) = rev (pairs (kvs @ [x]))"
    by (simp add: pairs_def x)
  with run2 c2(2,3,4) c1(3,4) show ?case by auto
qed

lemma puts_full:
  fixes c :: "('k, 'v::zero, 'cb) LRU"
  assumes v: "valid c" and d: "distinct (map fst kvs)" and n: "int (length kvs) = cap c"
  shows "\<exists>c'. run (puts kvs) c = Some c' \<and> valid c' \<and> cap c' = cap c \<and>
       onEvict c' = onEvict c \<and> resident c' = rev (pairs kvs)"
proof -
  from puts_prefix [OF v d] n obtain c' where
    c': "run (puts kvs) c = Some c'" "valid c'" "cap c' = cap c" "onEvict c' = onEvict c"
    "take (length kvs) (resident c') = rev (pairs kvs)" by auto
  from c'(2) have cc: "consistent c'" and "Len c' \<le> cap c'" by (simp_all add: valid_def)
  with n c'(3) have "length (resident c') \<le> length kvs"
    by (simp add: Len_resident [OF cc])
  with c'(5) have "resident c' = rev (pairs kvs)" by simp
  with c' show ?thesis by blast
qed

lemma Put_full:
  assumes v: "valid c" and r: "resident c = R @ [e]" and n: "Len c = cap c"
    and k: "k \<notin> key ` set (R @ [e])"
  shows "\<exists>c'. Put k v c = Some (notify (onEvict c) e, c') \<and>
           resident c' = \<lparr>key = k, val = v\<rparr> # R \<and> idx c' (key e) = None \<and>
           (\<forall>a \<in> key ` set R. idx c' a \<noteq> None) \<and> idx c' k \<noteq> None"
proof -
  from v have c: "consistent c" by (simp add: valid_def)
  from idx_iff_resident [OF c, of k] k r have i: "idx c k = None" by simp
  from valid_Put [OF v, of k v] i n obtain evs c' where
    c': "Put k v c = Some (evs, c')" "valid c'" "evs = notify (onEvict c) (victim k v c)"
    "resident c' = butlast (\<lparr>key = k, val = v\<rparr> # resident c)" by auto
  from c'(2) have cc': "consistent c'" by (simp add: valid_def)
  have res: "resident c' = \<lparr>key = k, val = v\<rparr> # R" using c'(4) r by (simp add: butlast_append)
  have vic: "victim k v c = e" using r by (simp add: victim_def)
  have "distinct (map key (R @ [e]))" using distinct_keys [OF c] r by simp
  then have "key e \<notin> key ` set R" by auto
  with k have "key e \<notin> key ` set (resident c')" unfolding res by auto
  with idx_iff_resident [OF cc', of "key e"] have "idx c' (key e) = None" by simp
  moreover have "\<forall>a \<in> key ` set R. idx c' a \<noteq> None"
    using idx_iff_resident [OF cc'] res by auto
  moreover have "idx c' k \<noteq> None"
    using idx_iff_resident [OF cc', of k] res by (auto simp: image_iff)
  ultimately show ?thesis using c'(1,3) vic res by simp
qed

lemma valid_Get_hit:
  assumes v: "valid c" and e: "e \<in> set (resident c)"
  shows "\<exists>c'. Get (key e) c = Some ((val e, True), c') \<and> valid c' \<and> cap c' = cap c \<and>
           onEvict c' = onEvict c \<and> Len c' = Len c \<and>
           resident c' = e # filter (\<lambda>x. key x \<noteq> key e) (resident c)"
proof -
  from v have c: "consistent c" by (simp add: valid_def)
  from idx_iff_resident [OF c, of "key e"] e obtain el where i: "idx c (key e) = Some el"
    by auto
  have el: "el \<in> set (lst c)" by (rule consistent_idx_in [OF c i])
  from Get_hit [OF c i] obtain e' where
    e': "elems c el = Some e'" "key e' = key e" "Get (key e) c = Some ((val e', True), promote el c)"
    by blast
  have "e' \<in> set (resident c)" using el e'(1) by (force simp: resident_map [OF c])
  with distinct_keys [OF c] e e'(2) have ee: "e' = e"
    by (auto simp: distinct_map dest: inj_onD)
  have l: "Len (promote el c) = Len c"
    using length_Cons_remove1 [OF el] by (simp only: Len_def ListLen_def promote_simps)
  have "valid (promote el c)"
    using v consistent_promote [OF c el] l by (simp add: valid_def)
  with e' ee l resident_promote [OF c i e'(1)] show ?thesis by simp
qed

section \<open>Get among other callers\<close>

lemma Get_racing_alone: "Get_racing k [] [] c = Get k c"
  by (simp add: Get_racing_def Get_def Get_lookup_def Get_promote_def Get_read_def Let_def
      split: option.split)

lemma valid_MoveToFront:
  assumes v: "valid c"
  shows "valid (MoveToFront el c) \<and> cap (MoveToFront el c) = cap c \<and>
         elems (MoveToFront el c) = elems c"
proof (cases "el \<in> set (lst c)")
  case True
  from v have c: "consistent c" by (simp add: valid_def)
  have l: "Len (promote el c) = Len c"
    using length_Cons_remove1 [OF True] by (simp only: Len_def ListLen_def promote_simps)
  have "valid (promote el c)"
    using v consistent_promote [OF c True] l by (simp add: valid_def)
  then show ?thesis by (simp add: MoveToFront_in [OF True] promote_def [symmetric])
next
  case False
  with v show ?thesis by (simp add: MoveToFront_def)
qed

lemma elems_step:
  assumes v: "valid c" and a: "elems c el \<noteq> None"
  shows "\<exists>c'. step x c = Some c' \<and> valid c' \<and> cap c' = cap c \<and> elems c' el \<noteq> None"
proof -
  from v have c: "consistent c" by (simp add: valid_def)
  from valid_step [OF v, of x] obtain c' where
    c': "step x c = Some c'" "valid c'" "cap c' = cap c" by blast
  have "elems c' el \<noteq> None"
  proof (cases x)
    case (OpGet k)
    show ?thesis
    proof (cases "idx c k")
      case None
      with c'(1) OpGet a show ?thesis by (simp add: Get_def)
    next
      case (Some h)
      from Get_hit [OF c Some] c'(1) OpGet a show ?thesis by auto
    qed
  next
    case (OpPut k v)
    show ?thesis
    proof (cases "idx c k")
      case None
      from Put_miss [OF c None, of v] c'(1) OpPut a show ?thesis
        by (auto split: if_splits)
    next
      case (Some h)
      from Put_hit [OF c Some, of v] c'(1) OpPut a show ?thesis by auto
    qed
  next
    case OpLen
    with c'(1) a show ?thesis by simp
  next
    case (OpSetEvictionCallback fn)
    with c'(1) a show ?thesis by (auto simp: SetEvictionCallback_def)
  qed
  with c' show ?thesis by blast
qed

lemma elems_run:
  "valid c \<Longrightarrow> elems c el \<noteq> None \<Longrightarrow>
     \<exists>c'. run xs c = Some c' \<and> valid c' \<and> cap c' = cap c \<and> elems c' el \<noteq> None"
proof (induction xs arbitrary: c)
  case Nil
  then show ?case by simp
next
  case (Cons x xs)
  from elems_step [OF Cons.prems, of x] obtain c1 where
    1: "step x c = Some c1" "valid c1" "cap c1 = cap c" "elems c1 el \<noteq> None" by blast
  from Cons.IH [OF 1(2) 1(4)] 1 show ?case by simp
qed

lemma Get_racing_safe:
  assumes v: "valid c"
  shows "\<exists>r c'. Get_racing k others1 others2 c = Some (r, c') \<and> valid c' \<and> cap c' = cap c"
proof (cases "idx c k")
  case None
  then have "Get_racing k others1 others2 c = Some ((0, False), c)"
    by (simp add: Get_racing_def Get_lookup_def)
  with v show ?thesis by blast
next
  case (Some el)
  from v have c: "consistent c" by (simp add: valid_def)
  from consistent_idx_key [OF c Some] have a: "elems c el \<noteq> None" by auto
  from elems_run [OF v a, of others1] obtain c1 where
    c1: "run others1 c = Some c1" "valid c1" "cap c1 = cap c" "elems c1 el \<noteq> None" by blast
  from valid_MoveToFront [OF c1(2), of el] c1(3,4) have
    m: "valid (Get_promote el c1)" "cap (Get_promote el c1) = cap c"
       "elems (Get_promote el c1) el \<noteq> None"
    by (simp_all add: Get_promote_def)
  from elems_run [OF m(1) m(3), of others2] m(2) obtain c2 where
    c2: "run others2 (Get_promote el c1) = Some c2" "valid c2" "cap c2 = cap c"
      "elems c2 el \<noteq> None" by auto
  from c2(4) obtain e where e: "elems c2 el = Some e" by auto
  have "Get_racing k others1 others2 c = Some ((val e, True), c2)"
    using Some c1(1) c2(1) e by (simp add: Get_racing_def Get_lookup_def Get_read_def)
  with c2(2,3) show ?thesis by blast
qed

section \<open>The properties of the cache\<close>

text \<open>
  Claim C1. On a cache built by \<open>NewLRU\<close> with capacity \<open>n\<close>, after any sequence of
  operations (Put, Get, Len, SetEvictionCallback, in any order), the run has not
  panicked, one more Put returns, and \<open>Len\<close> is at most \<open>n\<close> after it. Every Put of a
  run is the last Put of a prefix of the run, so the bound holds after every one of them.
\<close>

theorem capacity_invariant:
  fixes c0 :: "('k, 'v::zero, 'cb) LRU"
  assumes "NewLRU n = Inr c0"
  shows "\<exists>c evs c'. run ops c0 = Some c \<and> Put k v c = Some (evs, c') \<and> Len c' \<le> n"
proof -
  from valid_NewLRU [OF assms] have v0: "valid c0" and n: "cap c0 = n" by simp_all
  from valid_run [OF v0, of ops] obtain c where
    c: "run ops c0 = Some c" "valid c" "cap c = cap c0" by blast
  from valid_step [OF c(2), of "OpPut k v"] obtain c' where
    c': "step (OpPut k v) c = Some c'" "valid c'" "cap c' = cap c" by blast
  from c'(1) obtain evs where "Put k v c = Some (evs, c')" by auto
  moreover have "Len c' \<le> n" using c'(2,3) c(3) n by (simp add: valid_def)
  ultimately show ?thesis using c(1) by blast
qed

theorem capacity_invariant_witness:
  "\<exists>c evs c'. run [OpPut (1::nat) (10::int), OpGet 1, OpPut 2 20, OpPut 3 30]
        \<lparr>cap = 2, lst = [], idx = Map.empty, onEvict = (None :: string option),
         elems = Map.empty, nxt = 0\<rparr> = Some c \<and>
     Put 4 40 c = Some (evs, c') \<and> Len c' \<le> 2"
  by (rule capacity_invariant [where n = 2]) (simp add: NewLRU_def)

text \<open>
  Claim C4. In every state reached from a new cache by a sequence of Get, Put, Len and
  SetEvictionCallback: a key is in the index exactly when an element of the list holds
  it, the index maps each key to an element of the list that holds this key, every
  element of the list has an entry, and neither an element nor a key occurs twice in
  the list.
\<close>

theorem index_list_bijection:
  fixes c0 :: "('k, 'v::zero, 'cb) LRU"
  assumes "NewLRU n = Inr c0"
  shows "\<exists>c. run ops c0 = Some c \<and>
           (\<forall>k. (idx c k \<noteq> None) = (\<exists>h \<in> set (lst c). \<exists>e. elems c h = Some e \<and> key e = k)) \<and>
           (\<forall>k h. idx c k = Some h \<longrightarrow> h \<in> set (lst c) \<and> (\<exists>e. elems c h = Some e \<and> key e = k)) \<and>
           length (resident c) = length (lst c) \<and>
           distinct (lst c) \<and> distinct (map key (resident c))"
proof -
  from valid_NewLRU [OF assms] have v0: "valid c0" by simp
  from valid_run [OF v0, of ops] obtain c where
    c: "run ops c0 = Some c" "valid c" by blast
  from c(2) have cc: "consistent c" by (simp add: valid_def)
  have 1: "(idx c k \<noteq> None) = (\<exists>h \<in> set (lst c). \<exists>e. elems c h = Some e \<and> key e = k)" for k
  proof
    assume "idx c k \<noteq> None"
    then obtain h where h: "idx c k = Some h" by blast
    from consistent_idx_in [OF cc h] consistent_idx_key [OF cc h]
    show "\<exists>h \<in> set (lst c). \<exists>e. elems c h = Some e \<and> key e = k" by blast
  next
    assume "\<exists>h \<in> set (lst c). \<exists>e. elems c h = Some e \<and> key e = k"
    then obtain h e where h: "h \<in> set (lst c)" "elems c h = Some e" "key e = k" by blast
    from consistent_lst [OF cc h(1)] h(2,3) show "idx c k \<noteq> None" by auto
  qed
  have 2: "\<forall>k h. idx c k = Some h \<longrightarrow> h \<in> set (lst c) \<and> (\<exists>e. elems c h = Some e \<and> key e = k)"
    using consistent_idx_in [OF cc] consistent_idx_key [OF cc] by blast
  show ?thesis
    using c(1) 1 2 length_resident [OF cc] consistent_distinct [OF cc] distinct_keys [OF cc]
    by blast
qed

theorem index_list_bijection_witness:
  "\<exists>c. run [OpPut (1::nat) (10::int), OpGet 1, OpPut 2 20, OpPut 3 30, OpLen,
             OpSetEvictionCallback (Some ''f''), OpPut 2 21, OpPut 4 40]
        \<lparr>cap = 2, lst = [], idx = Map.empty, onEvict = None, elems = Map.empty, nxt = 0\<rparr> = Some c \<and>
           (\<forall>k. (idx c k \<noteq> None) = (\<exists>h \<in> set (lst c). \<exists>e. elems c h = Some e \<and> key e = k)) \<and>
           (\<forall>k h. idx c k = Some h \<longrightarrow> h \<in> set (lst c) \<and> (\<exists>e. elems c h = Some e \<and> key e = k)) \<and>
           length (resident c) = length (lst c) \<and>
           distinct (lst c) \<and> distinct (map key (resident c))"
  by (rule index_list_bijection [where n = 2]) (simp add: NewLRU_def)

text \<open>
  Claim C7. \<open>NewLRU\<close> with a capacity of zero or less returns the error and no cache; with
  a capacity of one or more it returns a cache that is empty (\<open>Len\<close> is 0, no resident
  entry, empty index) and whose capacity is the given one, and stays so after any
  sequence of operations.
\<close>

theorem NewLRU_capacity:
  "(n \<le> 0 \<longrightarrow> (NewLRU n :: error + ('k, 'v::zero, 'cb) LRU) = Inl InvalidCapacity) \<and>
   (1 \<le> n \<longrightarrow>
      (\<exists>c0 :: ('k, 'v, 'cb) LRU. NewLRU n = Inr c0 \<and> Len c0 = 0 \<and> resident c0 = [] \<and>
         idx c0 = Map.empty \<and> cap c0 = n \<and>
         (\<forall>ops. \<exists>c. run ops c0 = Some c \<and> cap c = n)))"
proof (intro conjI impI)
  assume "n \<le> 0"
  then show "(NewLRU n :: error + ('k, 'v, 'cb) LRU) = Inl InvalidCapacity"
    by (simp add: NewLRU_def)
next
  assume n: "1 \<le> n"
  define c0 :: "('k, 'v, 'cb) LRU" where
    "c0 = \<lparr>cap = n, lst = [], idx = Map.empty, onEvict = None, elems = Map.empty, nxt = 0\<rparr>"
  have new: "NewLRU n = Inr c0" using n by (simp add: NewLRU_def c0_def)
  from valid_NewLRU [OF new] have v0: "valid c0" and cn: "cap c0 = n" by simp_all
  have "\<exists>c. run ops c0 = Some c \<and> cap c = n" for ops
    using valid_run [OF v0, of ops] cn by auto
  moreover have "Len c0 = 0" "resident c0 = []" "idx c0 = Map.empty"
    by (simp_all add: c0_def Len_def ListLen_def resident_def)
  ultimately show "\<exists>c0 :: ('k, 'v, 'cb) LRU. NewLRU n = Inr c0 \<and> Len c0 = 0 \<and> resident c0 = [] \<and>
         idx c0 = Map.empty \<and> cap c0 = n \<and>
         (\<forall>ops. \<exists>c. run ops c0 = Some c \<and> cap c = n)"
    using new cn by blast
qed

theorem NewLRU_capacity_witness:
  "(NewLRU 0 :: error + (nat, int, string) LRU) = Inl InvalidCapacity \<and>
   (NewLRU (- 3) :: error + (nat, int, string) LRU) = Inl InvalidCapacity \<and>
   (\<exists>c0 :: (nat, int, string) LRU. NewLRU 1 = Inr c0 \<and> Len c0 = 0 \<and> resident c0 = [] \<and>
         idx c0 = Map.empty \<and> cap c0 = 1 \<and>
         (\<forall>ops. \<exists>c. run ops c0 = Some c \<and> cap c = 1))"
  using NewLRU_capacity [where ?'k = nat and ?'v = int and ?'cb = string and n = 0]
    NewLRU_capacity [where ?'k = nat and ?'v = int and ?'cb = string and n = "- 3"]
    NewLRU_capacity [where ?'k = nat and ?'v = int and ?'cb = string and n = 1]
  by simp

text \<open>
  Claim C8. When the key is not in the index, \<open>Get\<close> returns with found = false (it does
  not fail) and the cache after the call is the cache before it, in every field.
\<close>

theorem Get_absent_no_effect:
  "idx c k = None \<Longrightarrow> \<exists>x. Get k c = Some ((x, False), c)"
  by (simp add: Get_def)

theorem Get_absent_no_effect_witness:
  "\<exists>x. Get (3::nat) \<lparr>cap = 2, lst = [1, 0], idx = [1 \<mapsto> 0, 2 \<mapsto> 1], onEvict = Some ''f'',
          elems = [0 \<mapsto> \<lparr>key = 1, val = 10\<rparr>, 1 \<mapsto> \<lparr>key = 2, val = 20\<rparr>], nxt = 2\<rparr>
      = Some ((x::int, False),
          \<lparr>cap = 2, lst = [1, 0], idx = [1 \<mapsto> 0, 2 \<mapsto> 1], onEvict = Some ''f'',
          elems = [0 \<mapsto> \<lparr>key = 1, val = 10\<rparr>, 1 \<mapsto> \<lparr>key = 2, val = 20\<rparr>], nxt = 2\<rparr>)"
  by (rule Get_absent_no_effect) simp

text \<open>
  Claim C10. When the key is not in the index, the value that \<open>Get\<close> returns beside
  found = false is the zero value of the value type.
\<close>

theorem Get_absent_zero:
  "idx c k = None \<Longrightarrow> \<exists>c'. Get k c = Some ((0, False), c')"
  by (simp add: Get_def)

theorem Get_absent_zero_witness:
  "\<exists>c'. Get (3::nat) \<lparr>cap = 2, lst = [1, 0], idx = [1 \<mapsto> 0, 2 \<mapsto> 1], onEvict = Some ''f'',
          elems = [0 \<mapsto> \<lparr>key = 1, val = 10\<rparr>, 1 \<mapsto> \<lparr>key = 2, val = 20\<rparr>], nxt = 2\<rparr>
      = Some ((0::int, False), c')"
  by (rule Get_absent_zero) simp

text \<open>
  Claim C2. In a consistent cache, \<open>Put\<close> on a key that the index does not hold allocates
  a new element with the pair, links it at the front and enters it in the index. When the
  length of the list then exceeds the capacity, exactly the last element of the list is
  unlinked, the key of its entry is deleted from the index, and the callback, when one is
  set, is invoked once, with the key and value of that entry; without a callback, and
  when the capacity is not exceeded, no invocation is made. \<open>Put\<close> on a key that the
  index holds makes no invocation. (\<open>Get\<close> returns no invocations at all: its source
  never reads \<open>onEvict\<close>.)
\<close>

theorem Put_absent:
  assumes "consistent c"
  shows "(idx c k = None \<longrightarrow>
          (\<exists>evs c'. Put k v c = Some (evs, c') \<and>
             (if Len c + 1 > cap c then
                (let gone = last (\<lparr>key = k, val = v\<rparr> # resident c) in
                 lst c' = butlast (nxt c # lst c) \<and>
                 resident c' = butlast (\<lparr>key = k, val = v\<rparr> # resident c) \<and>
                 idx c' = ((idx c)(k \<mapsto> nxt c))(key gone := None) \<and>
                 evs = (case onEvict c of None \<Rightarrow> [] | Some f \<Rightarrow> [(f, key gone, val gone)]))
              else
                lst c' = nxt c # lst c \<and>
                resident c' = \<lparr>key = k, val = v\<rparr> # resident c \<and>
                idx c' = (idx c)(k \<mapsto> nxt c) \<and>
                evs = []) \<and>
             elems c' (nxt c) = Some \<lparr>key = k, val = v\<rparr> \<and> nxt c \<notin> set (lst c) \<and>
             cap c' = cap c \<and> onEvict c' = onEvict c)) \<and>
         (idx c k \<noteq> None \<longrightarrow> (\<exists>c'. Put k v c = Some ([], c')))"
proof (intro conjI impI)
  note c = assms
  assume "idx c k \<noteq> None"
  then show "\<exists>c'. Put k v c = Some ([], c')"
    using Put_hit [OF c] by blast
next
  note c = assms
  assume k: "idx c k = None"
  let ?c2 = "insert_front k v c"
  let ?P = "\<lambda>evs c'. Put k v c = Some (evs, c') \<and>
             (if Len c + 1 > cap c then
                (let gone = last (\<lparr>key = k, val = v\<rparr> # resident c) in
                 lst c' = butlast (nxt c # lst c) \<and>
                 resident c' = butlast (\<lparr>key = k, val = v\<rparr> # resident c) \<and>
                 idx c' = ((idx c)(k \<mapsto> nxt c))(key gone := None) \<and>
                 evs = (case onEvict c of None \<Rightarrow> [] | Some f \<Rightarrow> [(f, key gone, val gone)]))
              else
                lst c' = nxt c # lst c \<and>
                resident c' = \<lparr>key = k, val = v\<rparr> # resident c \<and>
                idx c' = (idx c)(k \<mapsto> nxt c) \<and>
                evs = []) \<and>
             elems c' (nxt c) = Some \<lparr>key = k, val = v\<rparr> \<and> nxt c \<notin> set (lst c) \<and>
             cap c' = cap c \<and> onEvict c' = onEvict c"
  have c2: "consistent ?c2" by (rule consistent_insert_front [OF c k])
  have ne: "lst ?c2 \<noteq> []" by simp
  have r2: "resident ?c2 = \<lparr>key = k, val = v\<rparr> # resident c"
    by (rule resident_insert_front [OF c])
  have r3: "resident (evict_back ?c2) = butlast (\<lparr>key = k, val = v\<rparr> # resident c)"
    using resident_evict_back [OF c2 ne] r2 by simp
  show "\<exists>evs c'. ?P evs c'"
  proof (cases "Len c + 1 > cap c")
    case True
    have "Put k v c = Some (notify (onEvict c) (victim k v c), evict_back ?c2)"
      using Put_miss [OF c k, of v] True by simp
    then have "?P (notify (onEvict c) (victim k v c)) (evict_back ?c2)"
      using True r2 r3 nxt_notin [OF c]
      by (simp add: Let_def notify_def victim_def)
    then show ?thesis by blast
  next
    case False
    have "Put k v c = Some ([], ?c2)"
      using Put_miss [OF c k, of v] False by simp
    then have "?P [] ?c2"
      using False r2 nxt_notin [OF c] by simp
    then show ?thesis by blast
  qed
qed

theorem Put_absent_witness:
  "(\<exists>evs c'. Put (3::nat) (30::int)
        \<lparr>cap = 2, lst = [1, 0], idx = [1 \<mapsto> 0, 2 \<mapsto> 1], onEvict = Some ''f'',
          elems = [0 \<mapsto> \<lparr>key = 1, val = 10\<rparr>, 1 \<mapsto> \<lparr>key = 2, val = 20\<rparr>], nxt = 2\<rparr>
        = Some (evs, c') \<and>
      lst c' = [2, 1] \<and>
      resident c' = [\<lparr>key = 3, val = 30\<rparr>, \<lparr>key = 2, val = 20\<rparr>] \<and>
      idx c' = [2 \<mapsto> 1, 3 \<mapsto> 2] \<and>
      evs = [(''f'', 1, 10)]) \<and>
   (\<exists>c'. Put (1::nat) (11::int)
        \<lparr>cap = 2, lst = [1, 0], idx = [1 \<mapsto> 0, 2 \<mapsto> 1], onEvict = Some ''f'',
          elems = [0 \<mapsto> \<lparr>key = 1, val = 10\<rparr>, 1 \<mapsto> \<lparr>key = 2, val = 20\<rparr>], nxt = 2\<rparr>
        = Some ([], c'))"
proof -
  let ?c = "\<lparr>cap = 2, lst = [1, 0], idx = [1 \<mapsto> 0, 2 \<mapsto> (1::nat)], onEvict = Some ''f'',
          elems = [0 \<mapsto> \<lparr>key = 1::nat, val = 10::int\<rparr>, 1 \<mapsto> \<lparr>key = 2, val = 20\<rparr>], nxt = 2\<rparr>"
  have c: "consistent ?c" by (auto simp: consistent_def split: if_splits)
  show ?thesis
    using Put_absent [OF c, of 3 30] Put_absent [OF c, of 1 11]
    by (auto simp: resident_def Len_def ListLen_def)
qed

text \<open>
  Claim C5. In a consistent cache, \<open>Put\<close> on a key that the index holds writes the value
  into the entry of the element the index gives for the key (the same element, updated in
  place), moves this element to the front of the list, and makes no callback invocation.
  The resident entries are the new pair followed by the other entries in their old
  order; \<open>Len\<close>, the index, the capacity and the callback are unchanged. Nothing is
  assumed about the capacity or about how full the cache is.
\<close>

theorem Put_present:
  assumes "consistent c" and "idx c k = Some el"
  shows "\<exists>c'. Put k v c = Some ([], c') \<and>
           elems c' = (elems c)(el \<mapsto> \<lparr>key = k, val = v\<rparr>) \<and>
           lst c' = el # remove1 el (lst c) \<and>
           resident c' = \<lparr>key = k, val = v\<rparr> # filter (\<lambda>e. key e \<noteq> k) (resident c) \<and>
           Len c' = Len c \<and> idx c' = idx c \<and> cap c' = cap c \<and> onEvict c' = onEvict c"
proof -
  have el: "el \<in> set (lst c)" by (rule consistent_idx_in [OF assms])
  have "Len (put_hit el k v c) = Len c"
    using length_Cons_remove1 [OF el] by (simp only: Len_def ListLen_def put_hit_simps)
  with Put_hit [OF assms, of v] resident_put_hit [OF assms, of v]
  show ?thesis by simp
qed

theorem Put_present_witness:
  "\<exists>c'. Put (1::nat) (11::int) \<lparr>cap = 2, lst = [1, 0], idx = [1 \<mapsto> 0, 2 \<mapsto> 1], onEvict = Some ''f'',
          elems = [0 \<mapsto> \<lparr>key = 1, val = 10\<rparr>, 1 \<mapsto> \<lparr>key = 2, val = 20\<rparr>], nxt = 2\<rparr> = Some ([], c') \<and>
      elems c' = [0 \<mapsto> \<lparr>key = 1, val = 11\<rparr>, 1 \<mapsto> \<lparr>key = 2, val = 20\<rparr>] \<and>
      lst c' = [0, 1] \<and>
      resident c' = [\<lparr>key = 1, val = 11\<rparr>, \<lparr>key = 2, val = 20\<rparr>] \<and>
      Len c' = 2 \<and> idx c' = [1 \<mapsto> 0, 2 \<mapsto> 1] \<and> cap c' = 2 \<and> onEvict c' = Some ''f''"
proof -
  let ?c = "\<lparr>cap = 2, lst = [1, 0], idx = [1 \<mapsto> 0, 2 \<mapsto> (1::nat)], onEvict = Some ''f'',
          elems = [0 \<mapsto> \<lparr>key = 1::nat, val = 10::int\<rparr>, 1 \<mapsto> \<lparr>key = 2, val = 20\<rparr>], nxt = 2\<rparr>"
  have c: "consistent ?c" by (auto simp: consistent_def split: if_splits)
  have i: "idx ?c 1 = Some 0" by simp
  show ?thesis
    using Put_present [OF c i, of 11]
    by (simp add: resident_def Len_def ListLen_def fun_upd_twist)
qed

text \<open>
  Claim C6. In a consistent cache, \<open>Get\<close> on a key that the index holds returns the value
  of the one resident entry with this key, with found = true, and moves the element of
  that entry to the front of the list. The resident entries are the same set, \<open>Len\<close>,
  the index, the entries of all elements, the capacity and the callback are unchanged.
\<close>

theorem Get_present:
  assumes "consistent c" and "idx c k = Some el"
  shows "\<exists>e c'. elems c el = Some e \<and> key e = k \<and> e \<in> set (resident c) \<and>
           (\<forall>e' \<in> set (resident c). key e' = k \<longrightarrow> e' = e) \<and>
           Get k c = Some ((val e, True), c') \<and>
           lst c' = el # remove1 el (lst c) \<and>
           resident c' = e # remove1 e (resident c) \<and>
           set (resident c') = set (resident c) \<and> Len c' = Len c \<and>
           idx c' = idx c \<and> elems c' = elems c \<and> cap c' = cap c \<and> onEvict c' = onEvict c"
proof -
  note c = assms(1) and k = assms(2)
  have el: "el \<in> set (lst c)" by (rule consistent_idx_in [OF c k])
  from Get_hit [OF c k] obtain e where
    e: "elems c el = Some e" "key e = k" "Get k c = Some ((val e, True), promote el c)" by blast
  have mem: "e \<in> set (resident c)"
    using el e(1) by (force simp: resident_map [OF c])
  have dk: "distinct (map key (resident c))" by (rule distinct_keys [OF c])
  have uniq: "\<forall>e' \<in> set (resident c). key e' = k \<longrightarrow> e' = e"
    using dk mem e(2) by (auto simp: distinct_map dest: inj_onD)
  have r: "resident (promote el c) = e # remove1 e (resident c)"
    using resident_promote [OF c k e(1)] remove1_filter_key [OF dk mem] e(2) by simp
  have s: "set (e # remove1 e (resident c)) = set (resident c)"
    using mem dk by (auto simp: distinct_map dest: notin_set_remove1 in_set_remove1)
  have l: "Len (promote el c) = Len c"
    using length_Cons_remove1 [OF el] by (simp only: Len_def ListLen_def promote_simps)
  have s': "set (resident (promote el c)) = set (resident c)"
    using r s by simp
  have g: "lst (promote el c) = el # remove1 el (lst c)" "idx (promote el c) = idx c"
    "elems (promote el c) = elems c" "cap (promote el c) = cap c"
    "onEvict (promote el c) = onEvict c"
    by simp_all
  from e(1) e(2) mem uniq e(3) g(1) r s' l g(2-5) show ?thesis by blast
qed

theorem Get_present_witness:
  "\<exists>e c'. e = \<lparr>key = 1, val = 10\<rparr> \<and>
      Get (1::nat) \<lparr>cap = 2, lst = [1, 0], idx = [1 \<mapsto> 0, 2 \<mapsto> 1], onEvict = Some ''f'',
          elems = [0 \<mapsto> \<lparr>key = 1, val = 10\<rparr>, 1 \<mapsto> \<lparr>key = 2, val = 20\<rparr>], nxt = 2\<rparr>
        = Some ((10::int, True), c') \<and>
      lst c' = [0, 1] \<and>
      resident c' = [\<lparr>key = 1, val = 10\<rparr>, \<lparr>key = 2, val = 20\<rparr>] \<and>
      Len c' = 2 \<and> idx c' = [1 \<mapsto> 0, 2 \<mapsto> 1] \<and>
      elems c' = [0 \<mapsto> \<lparr>key = 1, val = 10\<rparr>, 1 \<mapsto> \<lparr>key = 2, val = 20\<rparr>] \<and>
      cap c' = 2 \<and> onEvict c' = Some ''f''"
proof -
  let ?c = "\<lparr>cap = 2, lst = [1, 0], idx = [1 \<mapsto> 0, 2 \<mapsto> (1::nat)], onEvict = Some ''f'',
          elems = [0 \<mapsto> \<lparr>key = 1::nat, val = 10::int\<rparr>, 1 \<mapsto> \<lparr>key = 2, val = 20\<rparr>], nxt = 2\<rparr>"
  have c: "consistent ?c" by (auto simp: consistent_def split: if_splits)
  have i: "idx ?c 1 = Some 0" by simp
  show ?thesis
    using Get_present [OF c i]
    by (auto simp: resident_def Len_def ListLen_def)
qed

text \<open>
  Claim C3, as amended. Take a valid cache of capacity N, at least 1, and distinct keys
  \<open>k1\<close>, the keys of \<open>kvs\<close> (N - 1 of them) and \<open>k\<close>. After Puts of \<open>k1\<close> and then of the keys
  of \<open>kvs\<close>, in order, a Put of \<open>k\<close> evicts \<open>k1\<close>: the callback, when one is set, is invoked
  once with \<open>k1\<close> and its value, \<open>k1\<close> leaves the index and all the other keys stay. When N
  is at least 2, so that \<open>kvs\<close> starts with a second key \<open>k2\<close>, and \<open>Get\<close> of \<open>k1\<close> comes
  between the Puts and the Put of \<open>k\<close>, it is \<open>k2\<close> that is evicted, and \<open>k1\<close> stays.
\<close>

theorem recency_order:
  fixes c :: "('k, 'v::zero, 'cb) LRU"
  assumes "valid c" and "cap c = int (length ((k1, v1) # kvs))"
    and "distinct (k1 # map fst kvs @ [k])"
  shows "(\<exists>c1 evs c2. run (puts ((k1, v1) # kvs)) c = Some c1 \<and>
            Put k v c1 = Some (evs, c2) \<and>
            evs = (case onEvict c of None \<Rightarrow> [] | Some f \<Rightarrow> [(f, k1, v1)]) \<and>
            idx c2 k1 = None \<and> (\<forall>a \<in> set (map fst kvs @ [k]). idx c2 a \<noteq> None) \<and>
            resident c2 = \<lparr>key = k, val = v\<rparr> # rev (pairs kvs)) \<and>
         (\<forall>k2 v2 rest. kvs = (k2, v2) # rest \<longrightarrow>
            (\<exists>c1 evs c2. run (puts ((k1, v1) # kvs) @ [OpGet k1]) c = Some c1 \<and>
               Put k v c1 = Some (evs, c2) \<and>
               evs = (case onEvict c of None \<Rightarrow> [] | Some f \<Rightarrow> [(f, k2, v2)]) \<and>
               idx c2 k2 = None \<and> (\<forall>a \<in> set (k1 # map fst rest @ [k]). idx c2 a \<noteq> None) \<and>
               resident c2 = \<lparr>key = k, val = v\<rparr> # \<lparr>key = k1, val = v1\<rparr> # rev (pairs rest)))"
proof (intro conjI allI impI)
  note v = assms(1)
  let ?e1 = "\<lparr>key = k1, val = v1\<rparr>"
  have d: "distinct (map fst ((k1, v1) # kvs))" and n: "int (length ((k1, v1) # kvs)) = cap c"
    using assms(2,3) by simp_all
  from puts_full [OF v d n] obtain c1 where
    c1: "run (puts ((k1, v1) # kvs)) c = Some c1" "valid c1" "cap c1 = cap c"
    "onEvict c1 = onEvict c" "resident c1 = rev (pairs ((k1, v1) # kvs))" by blast
  from c1(2) have cc1: "consistent c1" by (simp add: valid_def)
  have r1: "resident c1 = rev (pairs kvs) @ [?e1]" using c1(5) by (simp add: pairs_def)
  have full: "Len c1 = cap c1" using c1(3) n by (simp add: Len_resident [OF cc1] r1 pairs_def)
  have keys: "key ` set (pairs kvs) = fst ` set kvs" by (rule keys_pairs)
  have k: "k \<notin> key ` set (rev (pairs kvs) @ [?e1])"
    using assms(3) keys by auto
  from Put_full [OF c1(2) r1 full k, of v] obtain c2 where
    c2: "Put k v c1 = Some (notify (onEvict c1) ?e1, c2)"
    "resident c2 = \<lparr>key = k, val = v\<rparr> # rev (pairs kvs)" "idx c2 (key ?e1) = None"
    "\<forall>a \<in> key ` set (rev (pairs kvs)). idx c2 a \<noteq> None" "idx c2 k \<noteq> None"
    by blast
  have "\<forall>a \<in> set (map fst kvs @ [k]). idx c2 a \<noteq> None"
    using c2(4,5) by (simp add: keys)
  with c1(1) c2(1,2,3) c1(4)
  show "\<exists>c1 evs c2. run (puts ((k1, v1) # kvs)) c = Some c1 \<and>
            Put k v c1 = Some (evs, c2) \<and>
            evs = (case onEvict c of None \<Rightarrow> [] | Some f \<Rightarrow> [(f, k1, v1)]) \<and>
            idx c2 k1 = None \<and> (\<forall>a \<in> set (map fst kvs @ [k]). idx c2 a \<noteq> None) \<and>
            resident c2 = \<lparr>key = k, val = v\<rparr> # rev (pairs kvs)"
    by (simp add: notify_pair)
next
  fix k2 v2 rest
  assume kvs: "kvs = (k2, v2) # rest"
  note v = assms(1)
  let ?e1 = "\<lparr>key = k1, val = v1\<rparr>"
  let ?e2 = "\<lparr>key = k2, val = v2\<rparr>"
  have d: "distinct (map fst ((k1, v1) # kvs))" and n: "int (length ((k1, v1) # kvs)) = cap c"
    using assms(2,3) by simp_all
  from puts_full [OF v d n] obtain c1 where
    c1: "run (puts ((k1, v1) # kvs)) c = Some c1" "valid c1" "cap c1 = cap c"
    "onEvict c1 = onEvict c" "resident c1 = rev (pairs ((k1, v1) # kvs))" by blast
  from c1(2) have cc1: "consistent c1" by (simp add: valid_def)
  have r1: "resident c1 = rev (pairs rest) @ [?e2, ?e1]"
    using c1(5) by (simp add: pairs_def kvs)
  have full: "Len c1 = cap c1" using c1(3) n by (simp add: Len_resident [OF cc1] r1 pairs_def kvs)
  have keys: "key ` set (pairs rest) = fst ` set rest" by (rule keys_pairs)
  have e1: "?e1 \<in> set (resident c1)" by (simp add: r1)
  from valid_Get_hit [OF c1(2) e1] obtain c1' where
    c1': "Get k1 c1 = Some ((v1, True), c1')" "valid c1'" "cap c1' = cap c1"
    "onEvict c1' = onEvict c1" "Len c1' = Len c1"
    "resident c1' = ?e1 # filter (\<lambda>x. key x \<noteq> k1) (resident c1)" by auto
  have "\<forall>x \<in> set (rev (pairs rest) @ [?e2]). key x \<noteq> k1"
    using assms(3) keys by (auto simp: kvs)
  then have "filter (\<lambda>x. key x \<noteq> k1) (rev (pairs rest) @ [?e2]) = rev (pairs rest) @ [?e2]"
    by (simp only: filter_id_conv)
  moreover have "filter (\<lambda>x. key x \<noteq> k1) [?e1] = []" by simp
  moreover have "resident c1 = (rev (pairs rest) @ [?e2]) @ [?e1]" using r1 by simp
  ultimately have "filter (\<lambda>x. key x \<noteq> k1) (resident c1) = rev (pairs rest) @ [?e2]"
    by (simp only: filter_append append_Nil2)
  then have r1': "resident c1' = (?e1 # rev (pairs rest)) @ [?e2]"
    using c1'(6) by simp
  have run1: "run (puts ((k1, v1) # kvs) @ [OpGet k1]) c = Some c1'"
    using c1(1) c1'(1) by (simp add: run_append)
  have full': "Len c1' = cap c1'" using full c1'(3,5) by simp
  have k: "k \<notin> key ` set ((?e1 # rev (pairs rest)) @ [?e2])"
    using assms(3) keys by (auto simp: kvs)
  from Put_full [OF c1'(2) r1' full' k, of v] obtain c2 where
    c2: "Put k v c1' = Some (notify (onEvict c1') ?e2, c2)"
    "resident c2 = \<lparr>key = k, val = v\<rparr> # ?e1 # rev (pairs rest)" "idx c2 (key ?e2) = None"
    "\<forall>a \<in> key ` set (?e1 # rev (pairs rest)). idx c2 a \<noteq> None" "idx c2 k \<noteq> None"
    by blast
  have "\<forall>a \<in> set (k1 # map fst rest @ [k]). idx c2 a \<noteq> None"
    using c2(4,5) by (simp add: keys)
  with run1 c2(1,2,3) c1(4) c1'(4)
  show "\<exists>c1 evs c2. run (puts ((k1, v1) # kvs) @ [OpGet k1]) c = Some c1 \<and>
               Put k v c1 = Some (evs, c2) \<and>
               evs = (case onEvict c of None \<Rightarrow> [] | Some f \<Rightarrow> [(f, k2, v2)]) \<and>
               idx c2 k2 = None \<and> (\<forall>a \<in> set (k1 # map fst rest @ [k]). idx c2 a \<noteq> None) \<and>
               resident c2 = \<lparr>key = k, val = v\<rparr> # \<lparr>key = k1, val = v1\<rparr> # rev (pairs rest)"
    by (simp add: notify_pair)
qed

theorem recency_order_witness:
  "(\<exists>c1 evs c2. run (puts [(1::nat, 10::int), (2, 20)])
        \<lparr>cap = 2, lst = [], idx = Map.empty, onEvict = Some ''f'', elems = Map.empty, nxt = 0\<rparr>
        = Some c1 \<and>
      Put 3 30 c1 = Some (evs, c2) \<and> evs = [(''f'', 1, 10)] \<and> idx c2 1 = None \<and>
      idx c2 2 \<noteq> None \<and> idx c2 3 \<noteq> None \<and>
      resident c2 = [\<lparr>key = 3, val = 30\<rparr>, \<lparr>key = 2, val = 20\<rparr>]) \<and>
   (\<exists>c1 evs c2. run (puts [(1::nat, 10::int), (2, 20)] @ [OpGet 1])
        \<lparr>cap = 2, lst = [], idx = Map.empty, onEvict = Some ''f'', elems = Map.empty, nxt = 0\<rparr>
        = Some c1 \<and>
      Put 3 30 c1 = Some (evs, c2) \<and> evs = [(''f'', 2, 20)] \<and> idx c2 2 = None \<and>
      idx c2 1 \<noteq> None \<and> idx c2 3 \<noteq> None \<and>
      resident c2 = [\<lparr>key = 3, val = 30\<rparr>, \<lparr>key = 1, val = 10\<rparr>])"
proof -
  let ?c = "\<lparr>cap = 2, lst = [], idx = Map.empty :: nat \<rightharpoonup> nat, onEvict = Some ''f'',
             elems = Map.empty :: nat \<rightharpoonup> (nat, int) entry, nxt = 0\<rparr>"
  have v: "valid ?c" by (simp add: valid_def consistent_def Len_def ListLen_def)
  have n: "cap ?c = int (length ((1::nat, 10::int) # [(2, 20)]))" by simp
  have d: "distinct ((1::nat) # map fst [(2::nat, 20::int)] @ [3])" by simp
  show ?thesis
    using recency_order [OF v n d, of 30] by (simp add: pairs_def)
qed

text \<open>
  The claim as first written also covers N = 1, where the second key is the key inserted
  last. There the cache of capacity 1 receives Put of key 1, Get of key 1 and Put of
  key 2, and the key evicted is 1, not 2: the callback is invoked with key 1, and the
  index afterwards holds key 2 only.
\<close>

theorem recency_order_counterexample:
  "NewLRU 1 =
     Inr \<lparr>cap = 1, lst = [], idx = Map.empty, onEvict = None, elems = Map.empty, nxt = 0\<rparr> \<and>
   run [OpSetEvictionCallback (Some ''f''), OpPut (1::nat) (10::int), OpGet 1]
     \<lparr>cap = 1, lst = [], idx = Map.empty, onEvict = None, elems = Map.empty, nxt = 0\<rparr> =
     Some \<lparr>cap = 1, lst = [0], idx = [1 \<mapsto> 0], onEvict = Some ''f'',
           elems = [0 \<mapsto> \<lparr>key = 1, val = 10\<rparr>], nxt = 1\<rparr> \<and>
   Put 2 20
     \<lparr>cap = 1, lst = [0], idx = [1 \<mapsto> 0], onEvict = Some ''f'',
      elems = [0 \<mapsto> \<lparr>key = 1::nat, val = 10::int\<rparr>], nxt = 1\<rparr> =
     Some ([(''f'', 1, 10)],
       \<lparr>cap = 1, lst = [1], idx = [2 \<mapsto> 1], onEvict = Some ''f'',
        elems = [0 \<mapsto> \<lparr>key = 1, val = 10\<rparr>, 1 \<mapsto> \<lparr>key = 2, val = 20\<rparr>], nxt = 2\<rparr>)"
  by (simp add: NewLRU_def Put_def Get_def PushFront_def MoveToFront_def Remove_def Back_def
      ListLen_def SetEvictionCallback_def Let_def)

text \<open>
  Claim C9. The claim asks that a \<open>Get\<close> whose key is evicted by another caller's \<open>Put\<close>
  between the lookup and the promotion neither fails, nor corrupts the cache, nor returns
  the evicted entry as found. The first two hold (lemma \<open>Get_racing_safe\<close>); the third does
  not. A cache of capacity 2 with callback \<open>f\<close> holds key 2 and, least recently used, key 1
  with value 10. The lookup of \<open>Get\<close> of key 1 finds element 0. \<open>Put\<close> of key 3 then
  evicts key 1 and invokes \<open>f\<close> with 1 and 10. \<open>MoveToFront\<close> of the removed element 0
  changes nothing, and \<open>Get\<close> returns 10 with found = true from a cache that no longer
  holds key 1. Neither order of the two calls one after the other gives this: \<open>Get\<close>
  after \<open>Put\<close> returns found = false, and \<open>Put\<close> after \<open>Get\<close> evicts key 2.
\<close>

theorem Get_race_returns_evicted:
  "NewLRU 2 =
     Inr \<lparr>cap = 2, lst = [], idx = Map.empty, onEvict = None, elems = Map.empty, nxt = 0\<rparr> \<and>
   run [OpSetEvictionCallback (Some ''f''), OpPut (1::nat) (10::int), OpPut 2 20]
     \<lparr>cap = 2, lst = [], idx = Map.empty, onEvict = None, elems = Map.empty, nxt = 0\<rparr> =
     Some \<lparr>cap = 2, lst = [1, 0], idx = [1 \<mapsto> 0, 2 \<mapsto> 1], onEvict = Some ''f'',
           elems = [0 \<mapsto> \<lparr>key = 1, val = 10\<rparr>, 1 \<mapsto> \<lparr>key = 2, val = 20\<rparr>], nxt = 2\<rparr> \<and>
   Get_lookup 1
     \<lparr>cap = 2, lst = [1, 0], idx = [1 \<mapsto> 0, 2 \<mapsto> 1], onEvict = Some ''f'',
      elems = [0 \<mapsto> \<lparr>key = 1::nat, val = 10::int\<rparr>, 1 \<mapsto> \<lparr>key = 2, val = 20\<rparr>], nxt = 2\<rparr> =
     Some 0 \<and>
   Put 3 30
     \<lparr>cap = 2, lst = [1, 0], idx = [1 \<mapsto> 0, 2 \<mapsto> 1], onEvict = Some ''f'',
      elems = [0 \<mapsto> \<lparr>key = 1::nat, val = 10::int\<rparr>, 1 \<mapsto> \<lparr>key = 2, val = 20\<rparr>], nxt = 2\<rparr> =
     Some ([(''f'', 1, 10)],
       \<lparr>cap = 2, lst = [2, 1], idx = [2 \<mapsto> 1, 3 \<mapsto> 2], onEvict = Some ''f'',
        elems = [0 \<mapsto> \<lparr>key = 1, val = 10\<rparr>, 1 \<mapsto> \<lparr>key = 2, val = 20\<rparr>,
                 2 \<mapsto> \<lparr>key = 3, val = 30\<rparr>], nxt = 3\<rparr>) \<and>
   Get_promote 0
     \<lparr>cap = 2, lst = [2, 1], idx = [2 \<mapsto> 1, 3 \<mapsto> 2], onEvict = Some ''f'',
      elems = [0 \<mapsto> \<lparr>key = 1::nat, val = 10::int\<rparr>, 1 \<mapsto> \<lparr>key = 2, val = 20\<rparr>,
               2 \<mapsto> \<lparr>key = 3, val = 30\<rparr>], nxt = 3\<rparr> =
     \<lparr>cap = 2, lst = [2, 1], idx = [2 \<mapsto> 1, 3 \<mapsto> 2], onEvict = Some ''f'',
      elems = [0 \<mapsto> \<lparr>key = 1, val = 10\<rparr>, 1 \<mapsto> \<lparr>key = 2, val = 20\<rparr>,
               2 \<mapsto> \<lparr>key = 3, val = 30\<rparr>], nxt = 3\<rparr> \<and>
   Get_racing 1 [OpPut 3 30] []
     \<lparr>cap = 2, lst = [1, 0], idx = [1 \<mapsto> 0, 2 \<mapsto> 1], onEvict = Some ''f'',
      elems = [0 \<mapsto> \<lparr>key = 1::nat, val = 10::int\<rparr>, 1 \<mapsto> \<lparr>key = 2, val = 20\<rparr>], nxt = 2\<rparr> =
     Some ((10, True),
       \<lparr>cap = 2, lst = [2, 1], idx = [2 \<mapsto> 1, 3 \<mapsto> 2], onEvict = Some ''f'',
        elems = [0 \<mapsto> \<lparr>key = 1, val = 10\<rparr>, 1 \<mapsto> \<lparr>key = 2, val = 20\<rparr>,
                 2 \<mapsto> \<lparr>key = 3, val = 30\<rparr>], nxt = 3\<rparr>) \<and>
   Get 1
     \<lparr>cap = 2, lst = [2, 1], idx = [2 \<mapsto> 1, 3 \<mapsto> 2], onEvict = Some ''f'',
      elems = [0 \<mapsto> \<lparr>key = 1::nat, val = 10::int\<rparr>, 1 \<mapsto> \<lparr>key = 2, val = 20\<rparr>,
               2 \<mapsto> \<lparr>key = 3, val = 30\<rparr>], nxt = 3\<rparr> =
     Some ((0, False),
       \<lparr>cap = 2, lst = [2, 1], idx = [2 \<mapsto> 1, 3 \<mapsto> 2], onEvict = Some ''f'',
        elems = [0 \<mapsto> \<lparr>key = 1, val = 10\<rparr>, 1 \<mapsto> \<lparr>key = 2, val = 20\<rparr>,
                 2 \<mapsto> \<lparr>key = 3, val = 30\<rparr>], nxt = 3\<rparr>) \<and>
   Get 1
     \<lparr>cap = 2, lst = [1, 0], idx = [1 \<mapsto> 0, 2 \<mapsto> 1], onEvict = Some ''f'',
      elems = [0 \<mapsto> \<lparr>key = 1::nat, val = 10::int\<rparr>, 1 \<mapsto> \<lparr>key = 2, val = 20\<rparr>], nxt = 2\<rparr> =
     Some ((10, True),
       \<lparr>cap = 2, lst = [0, 1], idx = [1 \<mapsto> 0, 2 \<mapsto> 1], onEvict = Some ''f'',
        elems = [0 \<mapsto> \<lparr>key = 1, val = 10\<rparr>, 1 \<mapsto> \<lparr>key = 2, val = 20\<rparr>], nxt = 2\<rparr>) \<and>
   Put 3 30
     \<lparr>cap = 2, lst = [0, 1], idx = [1 \<mapsto> 0, 2 \<mapsto> 1], onEvict = Some ''f'',
      elems = [0 \<mapsto> \<lparr>key = 1::nat, val = 10::int\<rparr>, 1 \<mapsto> \<lparr>key = 2, val = 20\<rparr>], nxt = 2\<rparr> =
     Some ([(''f'', 2, 20)],
       \<lparr>cap = 2, lst = [2, 0], idx = [1 \<mapsto> 0, 3 \<mapsto> 2], onEvict = Some ''f'',
        elems = [0 \<mapsto> \<lparr>key = 1, val = 10\<rparr>, 1 \<mapsto> \<lparr>key = 2, val = 20\<rparr>,
                 2 \<mapsto> \<lparr>key = 3, val = 30\<rparr>], nxt = 3\<rparr>)"
  by (simp add: NewLRU_def Put_def Get_def PushFront_def MoveToFront_def Remove_def Back_def
      ListLen_def SetEvictionCallback_def Let_def Get_racing_def Get_lookup_def Get_promote_def
      Get_read_def)

end
